theory Spec2Isabelle
  imports Complex_Main
begin

section \<open>JavaScript values, promises and listener behaviours\<close>

text \<open>
  The engine is the class \<^verbatim>\<open>AsyncEventEmitter\<close>. It extends Node's \<^verbatim>\<open>EventEmitter\<close>, keeps
  a private \<^verbatim>\<open>onceMap\<close> (original listener to once-wrapper) and an optional \<^verbatim>\<open>limiter\<close>
  made by \<^verbatim>\<open>pLimit\<close>.

  Event names are property keys of the registry; they are modelled as strings.
\<close>

type_synonym event = string

text \<open>
  A JavaScript number: a finite double is a rational, and the three special values are kept
  apart, because \<^verbatim>\<open>NaN >= 1\<close> is false and \<^verbatim>\<open>Infinity >= 1\<close> is true.
\<close>

datatype jsnum = Fin rat | PosInf | NegInf | NaN

text \<open>
  A function reference. \<open>User n\<close> is the n-th function of the caller's program.
  \<open>OnceListener k ev f\<close> is the closure \<^verbatim>\<open>onceListener\<close> that the k-th call of \<^verbatim>\<open>once\<close>
  created: it captured the event \<open>ev\<close> and the original listener \<open>f\<close>; its mutable
  variable \<^verbatim>\<open>fired\<close> lives in the store below, under \<open>k\<close>.
\<close>

datatype fref = User nat | OnceListener nat event fref

datatype jsval =
    JUndefined
  | JNull
  | JBool bool
  | JNum jsnum
  | JStr string
  | JFn fref
  | JArr "jsval list"
  | JError string

fun typeof_js :: "jsval \<Rightarrow> string" where
  "typeof_js JUndefined = ''undefined''"
| "typeof_js JNull = ''object''"
| "typeof_js (JBool b) = ''boolean''"
| "typeof_js (JNum n) = ''number''"
| "typeof_js (JStr s) = ''string''"
| "typeof_js (JFn f) = ''function''"
| "typeof_js (JArr xs) = ''object''"
| "typeof_js (JError m) = ''object''"

text \<open>\<^verbatim>\<open>concurrency >= 1\<close>, which the code evaluates only after \<^verbatim>\<open>typeof\<close> said "number".\<close>

fun ge_one :: "jsval \<Rightarrow> bool" where
  "ge_one (JNum (Fin q)) = (1 \<le> q)"
| "ge_one (JNum PosInf) = True"
| "ge_one (JNum NegInf) = False"
| "ge_one (JNum NaN) = False"
| "ge_one v = False"

text \<open>
  What a promise eventually does: it is fulfilled with a value, rejected with a reason, or
  stays pending for ever. The embedding has no clock: a promise is its final state.
\<close>

datatype settle = Fulfilled jsval | Rejected jsval | Pending

text \<open>
  How a call of a listener ends: it throws, it returns a plain value, or it returns a
  promise.
\<close>

datatype completion = Throws jsval | Returns jsval | ReturnsPromise settle

text \<open>
  \<^verbatim>\<open>Promise.resolve(listener(...args))\<close> inside \<^verbatim>\<open>try\<close>, with \<^verbatim>\<open>catch (err) { return
  Promise.reject(err) }\<close>: a promise is passed through, a plain value is wrapped, a
  synchronous throw becomes a rejection.
\<close>

fun to_promise :: "completion \<Rightarrow> settle" where
  "to_promise (Throws e) = Rejected e"
| "to_promise (Returns v) = Fulfilled v"
| "to_promise (ReturnsPromise p) = p"

text \<open>
  Modelled from the spec: the limiter is the object \<^verbatim>\<open>pLimit(n)\<close> returns, and the package
  p-limit is not among the sources. The spec describes it as a service that accepts a thunk
  and returns a promise of its result, runs at most \<open>capacity\<close> thunks at a time and queues
  the others first-in first-out, releasing a queued thunk when a running one settles.
  Without a clock only the slots held for ever matter: \<open>held\<close> counts the admitted thunks
  whose promise never settles, and a submitted thunk is run eventually exactly when a slot
  is left.
\<close>

record limit =
  capacity :: "nat option"
  held :: nat

definition admits :: "limit \<Rightarrow> bool" where
  "admits g = (case capacity g of None \<Rightarrow> True | Some c \<Rightarrow> held g < c)"

definition occupy :: "limit \<Rightarrow> limit" where
  "occupy g = g\<lparr>held := Suc (held g)\<rparr>"

text \<open>One call of \<^verbatim>\<open>_executeListener\<close>, as the log of the run records it.\<close>

record call =
  fn :: fref
  args :: "jsval list"
  outcome :: settle

text \<open>
  The state a run threads: the registry of the base class (per event, the listeners in
  registration order), the two private fields of the engine, the \<^verbatim>\<open>fired\<close> variables of the
  once-closures (the set of closures whose flag is true) and the number of closures made so
  far, the state of the caller's program that its listeners read and write, and the log of
  the calls of \<^verbatim>\<open>_executeListener\<close> (a ghost field: no operation reads it).
\<close>

record 'u world =
  registry :: "event \<Rightarrow> fref list"
  onceMap :: "fref \<rightharpoonup> fref"
  limiter :: "limit option"
  fired :: "nat set"
  closures :: nat
  user :: 'u
  call_log :: "call list"

text \<open>
  The caller's listeners: function \<open>n\<close>, called with an argument list in a state of the
  caller's program, ends with a completion and a new state. Listeners that call back into
  the engine while they run are outside this embedding.
\<close>

type_synonym 'u behaviour = "nat \<Rightarrow> jsval list \<Rightarrow> 'u \<Rightarrow> completion \<times> 'u"

text \<open>
  A method that throws is \<open>Inl\<close> of the thrown value, one that returns \<^verbatim>\<open>this\<close> is \<open>Inr\<close> of
  the new state. No method of the engine changes the state before it throws, so the state
  after a call made in \<open>w\<close> is the one the call returned, or \<open>w\<close> itself when it threw.
\<close>

definition returned :: "'u world \<Rightarrow> jsval + 'u world \<Rightarrow> 'u world" where
  "returned w r = (case r of Inl e \<Rightarrow> w | Inr w' \<Rightarrow> w')"

section \<open>The registry of the base class\<close>

text \<open>
  Modelled from the spec: the registry is Node's \<^verbatim>\<open>EventEmitter\<close>, which the class extends
  and which is not among the sources. The spec describes it as an ordered sequence of
  listeners per event, with add, remove by identity and list in registration order. The
  details are those of Node's documentation: \<^verbatim>\<open>on\<close> appends, \<^verbatim>\<open>listeners\<close> returns a copy of
  the array, \<^verbatim>\<open>removeListener\<close> removes the most recently added instance of the listener,
  and \<^verbatim>\<open>on\<close> and \<^verbatim>\<open>removeListener\<close> throw a \<^verbatim>\<open>TypeError\<close> when the listener is not a
  function. The events \<^verbatim>\<open>newListener\<close> and \<^verbatim>\<open>removeListener\<close> that Node emits on the way
  are left out.
\<close>

definition invalid_listener :: jsval where
  "invalid_listener = JError ''The listener argument must be of type function''"

definition on_fn :: "event \<Rightarrow> jsval \<Rightarrow> 'u world \<Rightarrow> jsval + 'u world" where
  "on_fn ev l w =
     (case l of
        JFn f \<Rightarrow> Inr (w\<lparr>registry := (registry w)(ev := registry w ev @ [f])\<rparr>)
      | _ \<Rightarrow> Inl invalid_listener)"

definition listeners :: "event \<Rightarrow> 'u world \<Rightarrow> fref list" where
  "listeners ev w = registry w ev"

definition remove_last :: "'a \<Rightarrow> 'a list \<Rightarrow> 'a list" where
  "remove_last x xs = rev (remove1 x (rev xs))"

definition super_removeListener :: "event \<Rightarrow> jsval \<Rightarrow> 'u world \<Rightarrow> jsval + 'u world" where
  "super_removeListener ev l w =
     (case l of
        JFn f \<Rightarrow> Inr (w\<lparr>registry := (registry w)(ev := remove_last f (registry w ev))\<rparr>)
      | _ \<Rightarrow> Inl invalid_listener)"

section \<open>The engine\<close>

subsection \<open>Construction and the concurrency limiter\<close>

definition new_world :: "'u \<Rightarrow> 'u world" where
  "new_world u =
     \<lparr>registry = (\<lambda>ev. []), onceMap = Map.empty, limiter = None, fired = {},
      closures = 0, user = u, call_log = []\<rparr>"

text \<open>
  \<^verbatim>\<open>setConcurrency(concurrency)\<close>. The factory \<^verbatim>\<open>pLimit\<close> is a parameter: it returns a limiter
  or throws. A throw leaves the method before the assignment, so the state is the one the
  method was called in; \<open>Inr\<close> is \<^verbatim>\<open>return this\<close>.
\<close>

definition setConcurrency ::
  "(jsval \<Rightarrow> jsval + limit) \<Rightarrow> jsval \<Rightarrow> 'u world \<Rightarrow> jsval + 'u world" where
  "setConcurrency pLimit concurrency w =
     (if typeof_js concurrency = ''number'' \<and> ge_one concurrency
      then (case pLimit concurrency of
              Inl e \<Rightarrow> Inl e
            | Inr g \<Rightarrow> Inr (w\<lparr>limiter := Some g\<rparr>))
      else Inr w)"

text \<open>\<^verbatim>\<open>new AsyncEventEmitter(concurrency)\<close>; an absent argument is \<open>JUndefined\<close>.\<close>

definition constructor_fn ::
  "(jsval \<Rightarrow> jsval + limit) \<Rightarrow> jsval \<Rightarrow> 'u \<Rightarrow> jsval + 'u world" where
  "constructor_fn pLimit concurrency u =
     (if typeof_js concurrency = ''number'' \<and> ge_one concurrency
      then setConcurrency pLimit concurrency (new_world u)
      else Inr (new_world u))"

text \<open>
  The state after a call of \<^verbatim>\<open>setConcurrency\<close>, whether it returned or threw, and after a
  sequence of calls.
\<close>

definition after_setConcurrency ::
  "(jsval \<Rightarrow> jsval + limit) \<Rightarrow> 'u world \<Rightarrow> jsval \<Rightarrow> 'u world" where
  "after_setConcurrency pLimit w concurrency =
     returned w (setConcurrency pLimit concurrency w)"

definition after_setConcurrency_calls ::
  "(jsval \<Rightarrow> jsval + limit) \<Rightarrow> jsval list \<Rightarrow> 'u world \<Rightarrow> 'u world" where
  "after_setConcurrency_calls pLimit cs w = foldl (after_setConcurrency pLimit) w cs"

text \<open>
  Two factories for concrete runs. Current releases of p-limit accept an integer from 1 up
  or \<^verbatim>\<open>Infinity\<close> and throw a \<^verbatim>\<open>TypeError\<close> on anything else; its first releases only
  refused numbers below 1, so that a limit of 1.5 let two thunks run.
\<close>

definition expected_concurrency :: jsval where
  "expected_concurrency = JError ''Expected concurrency to be a number from 1 and up''"

fun pLimit_strict :: "jsval \<Rightarrow> jsval + limit" where
  "pLimit_strict (JNum (Fin q)) =
     (if 1 \<le> q \<and> q = of_int \<lfloor>q\<rfloor>
      then Inr \<lparr>capacity = Some (nat \<lfloor>q\<rfloor>), held = 0\<rparr>
      else Inl expected_concurrency)"
| "pLimit_strict (JNum PosInf) = Inr \<lparr>capacity = None, held = 0\<rparr>"
| "pLimit_strict v = Inl expected_concurrency"

fun pLimit_lax :: "jsval \<Rightarrow> jsval + limit" where
  "pLimit_lax (JNum (Fin q)) =
     (if 1 \<le> q
      then Inr \<lparr>capacity = Some (nat \<lceil>q\<rceil>), held = 0\<rparr>
      else Inl expected_concurrency)"
| "pLimit_lax (JNum PosInf) = Inr \<lparr>capacity = None, held = 0\<rparr>"
| "pLimit_lax v = Inl expected_concurrency"

subsection \<open>once, removeListener, subscribe\<close>

text \<open>
  \<^verbatim>\<open>removeListener(event, listener)\<close>: when \<^verbatim>\<open>onceMap\<close> has the listener, the entry is
  deleted and the wrapper is removed from the registry in its place. Only functions are
  ever keys of \<^verbatim>\<open>onceMap\<close>, since \<^verbatim>\<open>once\<close> refuses anything else.
\<close>

definition removeListener :: "event \<Rightarrow> jsval \<Rightarrow> 'u world \<Rightarrow> jsval + 'u world" where
  "removeListener ev listener w =
     (case listener of
        JFn f \<Rightarrow>
          (case onceMap w f of
             Some t \<Rightarrow> super_removeListener ev (JFn t) (w\<lparr>onceMap := (onceMap w)(f := None)\<rparr>)
           | None \<Rightarrow> super_removeListener ev listener w)
      | _ \<Rightarrow> super_removeListener ev listener w)"

definition not_a_function :: jsval where
  "not_a_function = JError ''listener must be a function''"

text \<open>
  \<^verbatim>\<open>once(event, listener)\<close>: a fresh closure with \<^verbatim>\<open>fired = false\<close> is registered with
  \<^verbatim>\<open>on\<close>, then recorded in \<^verbatim>\<open>onceMap\<close> under the original listener.
\<close>

definition once_fn :: "event \<Rightarrow> jsval \<Rightarrow> 'u world \<Rightarrow> jsval + 'u world" where
  "once_fn ev listener w =
     (case listener of
        JFn f \<Rightarrow>
          (let k = closures w;
               onceListener = OnceListener k ev f;
               w1 = w\<lparr>closures := Suc k, fired := fired w - {k}\<rparr>
           in case on_fn ev (JFn onceListener) w1 of
                Inl e \<Rightarrow> Inl e
              | Inr w2 \<Rightarrow> Inr (w2\<lparr>onceMap := (onceMap w2)(f \<mapsto> onceListener)\<rparr>))
      | _ \<Rightarrow> Inl not_a_function)"

text \<open>
  \<^verbatim>\<open>subscribe(event, listener, once)\<close> registers on one of the two paths; the handle it
  returns is the closure \<^verbatim>\<open>() => this.removeListener(event, listener)\<close>, which is
  \<open>unsubscribe ev listener\<close>.
\<close>

definition subscribe :: "event \<Rightarrow> jsval \<Rightarrow> bool \<Rightarrow> 'u world \<Rightarrow> jsval + 'u world" where
  "subscribe ev listener once w = (if once then once_fn ev listener w else on_fn ev listener w)"

definition unsubscribe :: "event \<Rightarrow> jsval \<Rightarrow> 'u world \<Rightarrow> jsval + 'u world" where
  "unsubscribe ev listener w = removeListener ev listener w"

subsection \<open>Calling a listener\<close>

text \<open>
  \<^verbatim>\<open>listener(...args)\<close>. A function of the caller's program behaves as the parameter \<open>B\<close>
  says. A once-closure first calls \<^verbatim>\<open>self.removeListener(event, onceListener)\<close>, with
  itself as the listener, then, if \<^verbatim>\<open>fired\<close> is still false, sets it and applies the
  original listener; otherwise it returns \<^verbatim>\<open>undefined\<close>.
\<close>

fun invoke :: "'u behaviour \<Rightarrow> fref \<Rightarrow> jsval list \<Rightarrow> 'u world \<Rightarrow> completion \<times> 'u world" where
  "invoke B (User n) as w = (let (c, u') = B n as (user w) in (c, w\<lparr>user := u'\<rparr>))"
| "invoke B (OnceListener k ev f) as w =
     (case removeListener ev (JFn (OnceListener k ev f)) w of
        Inl e \<Rightarrow> (Throws e, w)
      | Inr w1 \<Rightarrow>
          if k \<notin> fired w1
          then invoke B f as (w1\<lparr>fired := insert k (fired w1)\<rparr>)
          else (Returns JUndefined, w1))"

text \<open>
  Modelled from the spec: \<^verbatim>\<open>this.limiter(thunk)\<close>, a call of the limiter of p-limit. It runs
  the thunk if a slot is left, turns a throw into a rejection, and keeps the slot for ever
  if the promise never settles; with no slot left the thunk is never run and the promise
  stays pending.
\<close>

definition submit :: "limit \<Rightarrow> ('u world \<Rightarrow> completion \<times> 'u world) \<Rightarrow> 'u world \<Rightarrow> settle \<times> 'u world" where
  "submit g thunk w =
     (if admits g
      then (let (c, w1) = thunk w; p = to_promise c
            in (p, if p = Pending then w1\<lparr>limiter := Some (occupy g)\<rparr> else w1))
      else (Pending, w))"

text \<open>
  \<^verbatim>\<open>_executeListener(listener, args)\<close>: with a limiter the call is handed to it as a thunk,
  without one the listener is called directly, its result wrapped by \<^verbatim>\<open>Promise.resolve\<close>
  and a throw turned into a rejection by the \<^verbatim>\<open>catch\<close>. Every call is logged with the
  promise it returned.
\<close>

definition executeListener ::
  "'u behaviour \<Rightarrow> fref \<Rightarrow> jsval list \<Rightarrow> 'u world \<Rightarrow> settle \<times> 'u world" where
  "executeListener B listener as w =
     (let (p, w1) =
            (case limiter w of
               Some g \<Rightarrow> submit g (invoke B listener as) w
             | None \<Rightarrow> (let (c, w1) = invoke B listener as w in (to_promise c, w1)))
      in (p, w1\<lparr>call_log := call_log w1 @ [\<lparr>fn = listener, args = as, outcome = p\<rparr>]\<rparr>))"

subsection \<open>Promise chains\<close>

text \<open>
  A promise whose callbacks have not run yet is a chain: run in a state, it ends in the
  final state of the promise and a new state. \<^verbatim>\<open>p.then(f)\<close> runs \<open>f\<close> on the value once
  \<open>p\<close> is fulfilled; a rejection is passed on and \<open>f\<close> is not called; when \<open>p\<close> never
  settles neither does the result.
\<close>

type_synonym 'u chain = "'u world \<Rightarrow> settle \<times> 'u world"

definition promise_resolve :: "jsval \<Rightarrow> 'u chain" where
  "promise_resolve v w = (Fulfilled v, w)"

definition then_fn :: "'u chain \<Rightarrow> (jsval \<Rightarrow> 'u chain) \<Rightarrow> 'u chain" where
  "then_fn p f w =
     (case p w of
        (Fulfilled v, w1) \<Rightarrow> f v w1
      | (Rejected e, w1) \<Rightarrow> (Rejected e, w1)
      | (Pending, w1) \<Rightarrow> (Pending, w1))"

text \<open>
  \<^verbatim>\<open>Promise.all(promises)\<close>: fulfilled with the values in the order of the array when all
  are fulfilled; rejected as soon as one is rejected. Which rejection comes first is
  decided by the clock of the runtime, which the embedding does not have, so the result
  names the candidates, in the order of the array.
\<close>

datatype aggregate = AllFulfilled "jsval list" | RejectedWithOneOf "jsval list" | StaysPending

fun rejections :: "settle list \<Rightarrow> jsval list" where
  "rejections [] = []"
| "rejections (Rejected e # ps) = e # rejections ps"
| "rejections (p # ps) = rejections ps"

fun fulfilments :: "settle list \<Rightarrow> jsval list option" where
  "fulfilments [] = Some []"
| "fulfilments (Fulfilled v # ps) = map_option (\<lambda>vs. v # vs) (fulfilments ps)"
| "fulfilments (p # ps) = None"

definition Promise_all :: "settle list \<Rightarrow> aggregate" where
  "Promise_all ps =
     (case rejections ps of
        [] \<Rightarrow> (case fulfilments ps of Some vs \<Rightarrow> AllFulfilled vs | None \<Rightarrow> StaysPending)
      | e # es \<Rightarrow> RejectedWithOneOf (e # es))"

subsection \<open>The four emission strategies\<close>

text \<open>
  \<^verbatim>\<open>emitParallel\<close>: \<^verbatim>\<open>forEach\<close> over the copy of the listeners pushes the promise of each
  call, all with the same \<^verbatim>\<open>args\<close>; then \<^verbatim>\<open>Promise.all\<close>.
\<close>

definition emitParallel ::
  "'u behaviour \<Rightarrow> event \<Rightarrow> jsval list \<Rightarrow> 'u world \<Rightarrow> aggregate \<times> 'u world" where
  "emitParallel B ev as w =
     (let (promises, w') =
            foldl (\<lambda>(ps, w0) listener.
                     let (p, w1) = executeListener B listener as w0 in (ps @ [p], w1))
                  ([], w) (listeners ev w)
      in (Promise_all promises, w'))"

text \<open>\<^verbatim>\<open>values.push(value); return values\<close>; \<^verbatim>\<open>push\<close> exists on arrays only.\<close>

fun push :: "jsval \<Rightarrow> jsval \<Rightarrow> 'u chain" where
  "push (JArr vs) v = promise_resolve (JArr (vs @ [v]))"
| "push x v = (\<lambda>w. (Rejected (JError ''values.push is not a function''), w))"

text \<open>
  \<^verbatim>\<open>emitSerial\<close>: \<^verbatim>\<open>reduce\<close> over the copy of the listeners builds the chain, starting from
  \<^verbatim>\<open>Promise.resolve([])\<close>.
\<close>

definition emitSerial ::
  "'u behaviour \<Rightarrow> event \<Rightarrow> jsval list \<Rightarrow> 'u world \<Rightarrow> settle \<times> 'u world" where
  "emitSerial B ev as w =
     foldl (\<lambda>promise listener.
              then_fn promise (\<lambda>values.
                then_fn (executeListener B listener as) (\<lambda>v. push values v)))
           (promise_resolve (JArr [])) (listeners ev w) w"

text \<open>
  Modelled from the spec: \<^verbatim>\<open>isArray\<close> is imported from the package @unwanted/common, which
  is not among the sources; the spec says a result that is a sequence is spread.
\<close>

fun isArray :: "jsval \<Rightarrow> bool" where
  "isArray (JArr xs) = True"
| "isArray v = False"

text \<open>The elements of an array, which \<^verbatim>\<open>listener(...args)\<close> spreads.\<close>

fun elements :: "jsval \<Rightarrow> jsval list" where
  "elements (JArr xs) = xs"
| "elements v = []"

text \<open>\<^verbatim>\<open>isArray(prevArgs) ? prevArgs : [prevArgs]\<close>, as an argument list.\<close>

definition currentArgs :: "jsval \<Rightarrow> jsval list" where
  "currentArgs prevArgs = (if isArray prevArgs then elements prevArgs else [prevArgs])"

definition emitReduceRun ::
  "'u behaviour \<Rightarrow> event \<Rightarrow> jsval list \<Rightarrow> bool \<Rightarrow> 'u world \<Rightarrow> settle \<times> 'u world" where
  "emitReduceRun B ev as inverse_order w =
     (let ls = (if inverse_order then rev (listeners ev w) else listeners ev w)
      in foldl (\<lambda>promise listener.
                  then_fn promise (\<lambda>prevArgs. executeListener B listener (currentArgs prevArgs)))
               (promise_resolve (JArr as)) ls w)"

definition emitReduce ::
  "'u behaviour \<Rightarrow> event \<Rightarrow> jsval list \<Rightarrow> 'u world \<Rightarrow> settle \<times> 'u world" where
  "emitReduce B ev as w = emitReduceRun B ev as False w"

definition emitReduceRight ::
  "'u behaviour \<Rightarrow> event \<Rightarrow> jsval list \<Rightarrow> 'u world \<Rightarrow> settle \<times> 'u world" where
  "emitReduceRight B ev as w = emitReduceRun B ev as True w"

text \<open>The calls of \<^verbatim>\<open>_executeListener\<close> logged between two states.\<close>

definition new_calls :: "'u world \<Rightarrow> 'u world \<Rightarrow> call list" where
  "new_calls w w' = drop (length (call_log w)) (call_log w')"

section \<open>Observations of a run\<close>

text \<open>The value a fulfilled promise carries, and whether a promise is fulfilled.\<close>

fun value_of :: "settle \<Rightarrow> jsval" where
  "value_of (Fulfilled v) = v"
| "value_of p = JUndefined"

fun is_fulfilled :: "settle \<Rightarrow> bool" where
  "is_fulfilled (Fulfilled v) = True"
| "is_fulfilled p = False"

text \<open>
  The claims are about the listeners: what each one receives, what it returns or throws,
  and what the emission makes of it. A call of a listener is recorded with the listener,
  the arguments it received and the way the call ended.
\<close>

record listener_call =
  callee :: fref
  received :: "jsval list"
  ended :: completion

text \<open>
  A call succeeds when it returns a plain value or a promise that is fulfilled, and its
  result is that value. It fails when it throws or returns a promise that is rejected, and
  its error is the value thrown or the reason of the rejection. A call that returns a
  promise which never settles does neither.
\<close>

fun succeeds :: "completion \<Rightarrow> bool" where
  "succeeds (Returns v) = True"
| "succeeds (ReturnsPromise (Fulfilled v)) = True"
| "succeeds c = False"

fun result_of :: "completion \<Rightarrow> jsval" where
  "result_of (Returns v) = v"
| "result_of (ReturnsPromise (Fulfilled v)) = v"
| "result_of c = JUndefined"

fun fails :: "completion \<Rightarrow> bool" where
  "fails (Throws x) = True"
| "fails (ReturnsPromise (Rejected x)) = True"
| "fails c = False"

fun error_of :: "completion \<Rightarrow> jsval" where
  "error_of (Throws x) = x"
| "error_of (ReturnsPromise (Rejected x)) = x"
| "error_of c = JUndefined"

text \<open>
  The argument list a result becomes for the next listener of a reduction: an array is
  spread, any other value is the only argument.
\<close>

fun spread :: "jsval \<Rightarrow> jsval list" where
  "spread (JArr xs) = xs"
| "spread v = [v]"

text \<open>
  The runs of the listeners the specification describes, stated on the listeners alone,
  with no promise chain, no limiter and no log. \<open>invoke\<close> is the call \<^verbatim>\<open>listener(...args)\<close>
  itself: for a function of the caller it is the behaviour \<open>B\<close> applied to the arguments
  and the caller's state.

  In a serial run the listeners are called one after the other in the given order, each
  with the same arguments, and the next one only when the call before it has succeeded.
\<close>

fun serial_run ::
  "'u behaviour \<Rightarrow> jsval list \<Rightarrow> fref list \<Rightarrow> 'u world \<Rightarrow> listener_call list \<times> 'u world" where
  "serial_run B as [] w = ([], w)"
| "serial_run B as (l # ls) w =
     (let (c, w1) = invoke B l as w;
          e = \<lparr>callee = l, received = as, ended = c\<rparr>
      in if succeeds c
         then (let (cs, w2) = serial_run B as ls w1 in (e # cs, w2))
         else ([e], w1))"

text \<open>
  In a reduction the first listener is called with the given arguments and each next one
  with the result of the call before it, and the run stops at the first call that does
  not succeed.
\<close>

fun reduce_run ::
  "'u behaviour \<Rightarrow> jsval list \<Rightarrow> fref list \<Rightarrow> 'u world \<Rightarrow> listener_call list \<times> 'u world" where
  "reduce_run B as [] w = ([], w)"
| "reduce_run B as (l # ls) w =
     (let (c, w1) = invoke B l as w;
          e = \<lparr>callee = l, received = as, ended = c\<rparr>
      in if succeeds c
         then (let (cs, w2) = reduce_run B (spread (result_of c)) ls w1 in (e # cs, w2))
         else ([e], w1))"

text \<open>In a parallel run every listener is called, in the given order, with the same arguments.\<close>

fun parallel_run ::
  "'u behaviour \<Rightarrow> jsval list \<Rightarrow> fref list \<Rightarrow> 'u world \<Rightarrow> listener_call list \<times> 'u world" where
  "parallel_run B as [] w = ([], w)"
| "parallel_run B as (l # ls) w =
     (let (c, w1) = invoke B l as w;
          (cs, w2) = parallel_run B as ls w1
      in (\<lparr>callee = l, received = as, ended = c\<rparr> # cs, w2))"

text \<open>The entry of the engine's log that belongs to a call of a listener.\<close>

definition logged :: "listener_call \<Rightarrow> call" where
  "logged c = \<lparr>fn = callee c, args = received c, outcome = to_promise (ended c)\<rparr>"

text \<open>
  The engine lets a listener run when it has no limiter or its limiter has a slot left.
  With every slot held for ever by a promise that never settles no listener is called any
  more; that case is \<open>emitSerial_exhausted\<close>, \<open>emitReduceRun_exhausted\<close> and
  \<open>emitParallel_exhausted\<close> below.
\<close>

definition admitting :: "'u world \<Rightarrow> bool" where
  "admitting w = (case limiter w of None \<Rightarrow> True | Some g \<Rightarrow> admits g)"

text \<open>
  The state without the engine's bookkeeping, that is without the log and the limiter:
  the registry, \<^verbatim>\<open>onceMap\<close>, the once-closures and the state of the caller's program.
\<close>

definition visible :: "'u world \<Rightarrow> 'u world" where
  "visible w = w\<lparr>call_log := [], limiter := None\<rparr>"

text \<open>
  A sequential strategy stops at the first failure: the listeners called are an initial
  segment of the listeners in the order of the strategy; every call but the last has
  succeeded; a call that fails is the last call made, and the emission is rejected with
  its error; and an emission is only ever rejected with the error of its last call.
\<close>

definition stops_at_first_failure :: "fref list \<Rightarrow> listener_call list \<Rightarrow> settle \<Rightarrow> bool" where
  "stops_at_first_failure ls cs res \<longleftrightarrow>
     map callee cs = take (length cs) ls
   \<and> (\<forall>i. Suc i < length cs \<longrightarrow> succeeds (ended (cs ! i)))
   \<and> (\<forall>i<length cs. fails (ended (cs ! i)) \<longrightarrow>
          Suc i = length cs \<and> res = Rejected (error_of (ended (cs ! i))))
   \<and> (case res of
        Rejected x \<Rightarrow> cs \<noteq> [] \<and> fails (ended (last cs)) \<and> error_of (ended (last cs)) = x
      | p \<Rightarrow> True)"

text \<open>
  A reduction threads the results: the listeners called are an initial segment of the
  listeners in the order of the strategy; the first one receives the original \<^verbatim>\<open>args\<close>,
  every later one the result of the call before it, spread if it is an array and as the
  only argument otherwise; a listener is called only when the call before it has
  succeeded; and when every call succeeds, every listener has been called.
\<close>

definition threads_results :: "jsval list \<Rightarrow> fref list \<Rightarrow> listener_call list \<Rightarrow> bool" where
  "threads_results as ls cs \<longleftrightarrow>
     map callee cs = take (length cs) ls
   \<and> (\<forall>i<length cs.
        received (cs ! i) =
          (if i = 0 then as else spread (result_of (ended (cs ! (i - 1))))))
   \<and> (\<forall>i. Suc i < length cs \<longrightarrow> succeeds (ended (cs ! i)))
   \<and> ((\<forall>c\<in>set cs. succeeds (ended c)) \<longrightarrow> length cs = length ls)"

section \<open>Listeners and states for concrete runs\<close>

text \<open>
  The listeners of the repository's tests, as functions 0 to 6 of a caller whose state is
  the counter \<^verbatim>\<open>index\<close>: \<^verbatim>\<open>(action) => action\<close>; the same through a promise; a promise
  rejected with "beep"; a throw of "boop"; \<^verbatim>\<open>resolve(index++)\<close>; \<^verbatim>\<open>() => 1\<close>;
  \<^verbatim>\<open>(value) => [value]\<close>. Every other function returns a promise that never settles.
\<close>

fun first_arg :: "jsval list \<Rightarrow> jsval" where
  "first_arg [] = JUndefined"
| "first_arg (a # as) = a"

definition sample :: "nat behaviour" where
  "sample n as u =
     (if n = 0 then (Returns (first_arg as), u)
      else if n = 1 then (ReturnsPromise (Fulfilled (first_arg as)), u)
      else if n = 2 then (ReturnsPromise (Rejected (JError ''beep'')), u)
      else if n = 3 then (Throws (JError ''boop''), u)
      else if n = 4 then (ReturnsPromise (Fulfilled (JNum (Fin (of_nat u)))), Suc u)
      else if n = 5 then (Returns (JNum (Fin 1)), u)
      else if n = 6 then (Returns (JArr [first_arg as]), u)
      else (ReturnsPromise Pending, u))"

text \<open>
  Calls of \<^verbatim>\<open>on\<close> for one event, one listener after the other; a call that throws leaves
  the state as it was.
\<close>

definition on_all :: "event \<Rightarrow> fref list \<Rightarrow> 'u world \<Rightarrow> 'u world" where
  "on_all ev fs w = foldl (\<lambda>w0 f. returned w0 (on_fn ev (JFn f) w0)) w fs"

text \<open>The states of the concrete runs: the listeners of the tests, registered with \<^verbatim>\<open>on\<close>.\<close>

definition one_succeeds_two_fail :: "nat world" where
  "one_succeeds_two_fail = on_all ''delay'' [User 4, User 2, User 3] (new_world 0)"

definition only_one :: "nat world" where
  "only_one = on_all ''normal'' [User 5] (new_world 0)"

text \<open>
  \<^verbatim>\<open>emitter.once("foo", listener)\<close> on a new engine, with \<^verbatim>\<open>listener = () => 1\<close>, and the
  state after \<^verbatim>\<open>emitter.emitParallel("foo")\<close> has then run.
\<close>

definition once_registered :: "nat world" where
  "once_registered = returned (new_world 0) (once_fn ''foo'' (JFn (User 5)) (new_world 0))"

definition once_fired :: "nat world" where
  "once_fired = snd (emitParallel sample ''foo'' [] once_registered)"

text \<open>Then \<^verbatim>\<open>emitter.on("foo", listener)\<close>, the same listener on the ordinary path.\<close>

definition registered_again :: "nat world" where
  "registered_again = returned once_fired (on_fn ''foo'' (JFn (User 5)) once_fired)"

text \<open>
  \<^verbatim>\<open>new AsyncEventEmitter(2)\<close> with the limiter of a current p-limit, and the listeners of
  the tests registered on it.
\<close>

definition limited :: "nat world" where
  "limited = after_setConcurrency pLimit_strict (new_world 0) (JNum (Fin 2))"

definition echo_wrap_count :: "nat world" where
  "echo_wrap_count = on_all ''delay'' [User 0, User 6, User 4] limited"

definition throw_then_one :: "nat world" where
  "throw_then_one = on_all ''delay'' [User 3, User 5] limited"

definition limited_one_then_wrap :: "nat world" where
  "limited_one_then_wrap = on_all ''normal'' [User 5, User 6] limited"

text \<open>
  \<^verbatim>\<open>new AsyncEventEmitter(1)\<close> after \<^verbatim>\<open>emitParallel("hang")\<close> has called a listener whose
  promise never settles, which keeps the only slot of the limiter; then the listeners of
  the tests are registered.
\<close>

definition stalled :: "nat world" where
  "stalled = snd (emitParallel sample ''hang'' []
     (on_all ''hang'' [User 7]
        (after_setConcurrency pLimit_strict (new_world 0) (JNum (Fin 1)))))"

definition stalled_echo_count :: "nat world" where
  "stalled_echo_count = on_all ''delay'' [User 0, User 4] stalled"

section \<open>Properties\<close>

lemma listeners_new_world: "listeners ev (new_world u) = []"
  by (simp add: listeners_def new_world_def)

subsection \<open>Promise.all\<close>

lemma rejections_fulfilled: "\<forall>p\<in>set ps. is_fulfilled p \<Longrightarrow> rejections ps = []"
  by (induction ps rule: rejections.induct) auto

lemma fulfilments_fulfilled:
  "\<forall>p\<in>set ps. is_fulfilled p \<Longrightarrow> fulfilments ps = Some (map value_of ps)"
  by (induction ps rule: fulfilments.induct) auto

lemma Promise_all_fulfilled:
  "\<forall>p\<in>set ps. is_fulfilled p \<Longrightarrow> Promise_all ps = AllFulfilled (map value_of ps)"
  by (simp add: Promise_all_def rejections_fulfilled fulfilments_fulfilled)

lemma fulfilments_Some:
  "fulfilments ps = Some vs \<Longrightarrow> (\<forall>p\<in>set ps. is_fulfilled p) \<and> vs = map value_of ps"
  by (induction ps arbitrary: vs rule: fulfilments.induct) auto

lemma Promise_all_AllFulfilled:
  "Promise_all ps = AllFulfilled vs \<Longrightarrow> (\<forall>p\<in>set ps. is_fulfilled p) \<and> vs = map value_of ps"
  by (auto simp: Promise_all_def split: list.splits option.splits dest: fulfilments_Some)


subsection \<open>Small facts\<close>

lemma butlast_nth_all:
  assumes "\<forall>e\<in>set (butlast es). P e" and "Suc i < length es"
  shows "P (es ! i)"
proof -
  from assms(2) have "i < length (butlast es)" by simp
  then have "butlast es ! i \<in> set (butlast es)" by (rule nth_mem)
  moreover have "butlast es ! i = es ! i" using \<open>i < length (butlast es)\<close> by (rule nth_butlast)
  ultimately show ?thesis using assms(1) by auto
qed

lemma emitReduceRun_no_listeners:
  "listeners ev w = [] \<Longrightarrow> emitReduceRun B ev as inverse_order w = (Fulfilled (JArr as), w)"
  by (simp add: emitReduceRun_def promise_resolve_def)

subsection \<open>Calls of listeners and the engine's bookkeeping\<close>

lemma to_promise_cases:
  "to_promise c = (if succeeds c then Fulfilled (result_of c)
                   else if fails c then Rejected (error_of c) else Pending)"
  by (cases c rule: succeeds.cases) auto

lemma succeeds_iff: "succeeds c \<longleftrightarrow> is_fulfilled (to_promise c)"
  by (cases c rule: succeeds.cases) auto

lemma rejected_iff_fails: "to_promise c = Rejected x \<longleftrightarrow> fails c \<and> error_of c = x"
  by (cases c rule: fails.cases) auto

lemma fails_not_succeeds: "fails c \<Longrightarrow> \<not> succeeds c"
  by (cases c rule: fails.cases) auto

lemma value_of_to_promise: "succeeds c \<Longrightarrow> value_of (to_promise c) = result_of c"
  by (simp add: to_promise_cases)

lemma spread_currentArgs: "currentArgs v = spread v"
  by (cases v) (auto simp: currentArgs_def)

lemma invoke_User:
  "invoke B (User n) as w = (fst (B n as (user w)), w\<lparr>user := snd (B n as (user w))\<rparr>)"
  by (simp add: split_beta)

text \<open>A call of a listener neither reads nor writes the log and the limiter.\<close>

lemma removeListener_bookkeeping:
  "removeListener ev l (w\<lparr>call_log := x, limiter := y\<rparr>) =
     (case removeListener ev l w of
        Inl e \<Rightarrow> Inl e
      | Inr w1 \<Rightarrow> Inr (w1\<lparr>call_log := x, limiter := y\<rparr>))"
proof (cases l)
  case (JFn f)
  then show ?thesis
    by (cases "onceMap w f") (simp_all add: removeListener_def super_removeListener_def)
qed (simp_all add: removeListener_def super_removeListener_def)

lemma invoke_bookkeeping:
  "invoke B l as (w\<lparr>call_log := x, limiter := y\<rparr>) =
     (case invoke B l as w of (c, w1) \<Rightarrow> (c, w1\<lparr>call_log := x, limiter := y\<rparr>))"
proof (induction B l as w rule: invoke.induct)
  case (1 B n as w)
  then show ?case by (simp split: prod.splits)
next
  case (2 B k ev f as w)
  show ?case
  proof (cases "removeListener ev (JFn (OnceListener k ev f)) w")
    case (Inl e)
    then show ?thesis by (simp add: removeListener_bookkeeping)
  next
    case (Inr w1)
    show ?thesis
    proof (cases "k \<in> fired w1")
      case True
      with Inr show ?thesis by (simp add: removeListener_bookkeeping)
    next
      case False
      have swap: "w1\<lparr>call_log := x, limiter := y, fired := insert k (fired w1)\<rparr>
                  = w1\<lparr>fired := insert k (fired w1), call_log := x, limiter := y\<rparr>"
        by (cases w1) simp
      from "2.IH" [OF Inr False] Inr False show ?thesis
        by (simp add: removeListener_bookkeeping swap)
    qed
  qed
qed

lemma visible_eq:
  "visible w = visible v \<Longrightarrow> w = v\<lparr>call_log := call_log w, limiter := limiter w\<rparr>"
  by (cases w, cases v) (simp add: visible_def)

lemma visible_update [simp]: "visible (w\<lparr>call_log := x, limiter := y\<rparr>) = visible w"
  by (simp add: visible_def)

lemma invoke_visible:
  assumes "visible w = visible v" and "invoke B l as v = (c, v1)"
  shows "invoke B l as w = (c, v1\<lparr>call_log := call_log w, limiter := limiter w\<rparr>)"
proof -
  from visible_eq [OF assms(1)]
  have "invoke B l as w = invoke B l as (v\<lparr>call_log := call_log w, limiter := limiter w\<rparr>)"
    by simp
  with assms(2) show ?thesis by (simp add: invoke_bookkeeping)
qed

text \<open>
  What \<^verbatim>\<open>_executeListener\<close> does with a listener: an engine that lets it run calls it with
  the arguments handed over, returns the promise of its completion and leaves the state
  the listener left; an engine whose limiter is exhausted does not call it.
\<close>

lemma executeListener_admitting:
  assumes adm: "admitting w" and vis: "visible w = visible v"
    and inv: "invoke B l as v = (c, v1)"
  shows "\<exists>w1. executeListener B l as w = (to_promise c, w1)
          \<and> visible w1 = visible v1
          \<and> call_log w1 = call_log w @ [logged \<lparr>callee = l, received = as, ended = c\<rparr>]
          \<and> (to_promise c \<noteq> Pending \<longrightarrow> limiter w1 = limiter w)
          \<and> (limiter w = None \<longrightarrow> limiter w1 = None)"
proof -
  note i = invoke_visible [OF vis inv]
  show ?thesis
  proof (cases "limiter w")
    case None
    with i show ?thesis
      by (simp add: executeListener_def logged_def visible_def)
  next
    case (Some g)
    with adm have "admits g" by (simp add: admitting_def)
    with i Some show ?thesis
      by (simp add: executeListener_def submit_def logged_def visible_def Let_def)
  qed
qed

lemma executeListener_exhausted:
  assumes "\<not> admitting w"
  shows "executeListener B l as w =
           (Pending, w\<lparr>call_log := call_log w @ [\<lparr>fn = l, args = as, outcome = Pending\<rparr>]\<rparr>)"
  using assms
  by (cases "limiter w") (simp_all add: admitting_def executeListener_def submit_def)

lemma admitting_kept:
  assumes "admitting w"
    and "to_promise c \<noteq> Pending \<longrightarrow> limiter w1 = limiter w"
    and "succeeds c"
  shows "admitting w1"
  using assms by (cases c rule: succeeds.cases) (auto simp: admitting_def)

subsection \<open>The promise chains carry out the runs of the listeners\<close>

lemma serial_passes_on:
  fixes B :: "'u behaviour"
  assumes "p w0 = (r, w)" and "\<not> is_fulfilled r"
  shows "foldl (\<lambda>promise listener.
              then_fn promise (\<lambda>values.
                then_fn (executeListener B listener as) (\<lambda>v. push values v)))
           p ls w0 = (r, w)"
  using assms
proof (induction ls arbitrary: p)
  case Nil
  then show ?case by simp
next
  case (Cons l ls)
  let ?p = "then_fn p (\<lambda>values. then_fn (executeListener B l as) (\<lambda>v. push values v))"
  from Cons.prems have "?p w0 = (r, w)" by (cases r) (simp_all add: then_fn_def)
  from Cons.IH [where p = ?p, OF this Cons.prems(2)] show ?case by simp
qed

lemma serial_refines:
  fixes B :: "'u behaviour"
  assumes "p w0 = (Fulfilled (JArr vs), w)" and "admitting w" and "visible w = visible v"
  shows "\<exists>w'. foldl (\<lambda>promise listener.
              then_fn promise (\<lambda>values.
                then_fn (executeListener B listener as) (\<lambda>v. push values v)))
           p ls w0
           = (if \<forall>c\<in>set (fst (serial_run B as ls v)). succeeds (ended c)
              then Fulfilled (JArr (vs @ map (\<lambda>c. result_of (ended c)) (fst (serial_run B as ls v))))
              else to_promise (ended (last (fst (serial_run B as ls v)))), w')
         \<and> call_log w' = call_log w @ map logged (fst (serial_run B as ls v))
         \<and> visible w' = visible (snd (serial_run B as ls v))"
  using assms
proof (induction ls arbitrary: p w v vs)
  case Nil
  then show ?case by simp
next
  case (Cons l ls)
  let ?step = "\<lambda>promise listener.
              then_fn promise (\<lambda>values.
                then_fn (executeListener B listener as) (\<lambda>v. push values v))"
  obtain c v1 where inv: "invoke B l as v = (c, v1)" by (cases "invoke B l as v")
  from executeListener_admitting [where as = as, OF Cons.prems(2) Cons.prems(3) inv]
  obtain w1 where ex: "executeListener B l as w = (to_promise c, w1)"
    and vis1: "visible w1 = visible v1"
    and lg1: "call_log w1 = call_log w @ [logged \<lparr>callee = l, received = as, ended = c\<rparr>]"
    and lim1: "to_promise c \<noteq> Pending \<longrightarrow> limiter w1 = limiter w"
    by blast
  show ?case
  proof (cases "succeeds c")
    case True
    then have tp: "to_promise c = Fulfilled (result_of c)" by (simp add: to_promise_cases)
    have p': "?step p l w0 = (Fulfilled (JArr (vs @ [result_of c])), w1)"
      using Cons.prems(1) ex tp by (simp add: then_fn_def promise_resolve_def)
    have adm1: "admitting w1" by (rule admitting_kept [OF Cons.prems(2) lim1 True])
    from Cons.IH [where p = "?step p l", OF p' adm1 vis1] obtain w' where
      run: "foldl ?step (?step p l) ls w0
           = (if \<forall>c\<in>set (fst (serial_run B as ls v1)). succeeds (ended c)
              then Fulfilled (JArr ((vs @ [result_of c])
                     @ map (\<lambda>c. result_of (ended c)) (fst (serial_run B as ls v1))))
              else to_promise (ended (last (fst (serial_run B as ls v1)))), w')"
      and lg: "call_log w' = call_log w1 @ map logged (fst (serial_run B as ls v1))"
      and vis: "visible w' = visible (snd (serial_run B as ls v1))"
      by blast
    have ne: "\<not> (\<forall>c\<in>set (fst (serial_run B as ls v1)). succeeds (ended c))
              \<Longrightarrow> fst (serial_run B as ls v1) \<noteq> []" by auto
    from run lg vis lg1 inv True ne show ?thesis
      by (intro exI [of _ w']) (auto simp: split_beta)
  next
    case False
    then have nf: "\<not> is_fulfilled (to_promise c)" by (simp add: succeeds_iff)
    have p': "?step p l w0 = (to_promise c, w1)"
      using Cons.prems(1) ex nf by (cases "to_promise c") (simp_all add: then_fn_def)
    from serial_passes_on [where p = "?step p l" and B = B and as = as and ls = ls, OF p' nf]
    have "foldl ?step (?step p l) ls w0 = (to_promise c, w1)" .
    with lg1 vis1 inv False show ?thesis
      by (intro exI [of _ w1]) (simp add: split_beta)
  qed
qed

lemma reduce_passes_on:
  fixes B :: "'u behaviour"
  assumes "p w0 = (r, w)" and "\<not> is_fulfilled r"
  shows "foldl (\<lambda>promise listener.
                  then_fn promise (\<lambda>prevArgs. executeListener B listener (currentArgs prevArgs)))
           p ls w0 = (r, w)"
  using assms
proof (induction ls arbitrary: p)
  case Nil
  then show ?case by simp
next
  case (Cons l ls)
  let ?p = "then_fn p (\<lambda>prevArgs. executeListener B l (currentArgs prevArgs))"
  from Cons.prems have "?p w0 = (r, w)" by (cases r) (simp_all add: then_fn_def)
  from Cons.IH [where p = ?p, OF this Cons.prems(2)] show ?case by simp
qed

lemma reduce_refines:
  fixes B :: "'u behaviour"
  assumes "p w0 = (Fulfilled acc, w)" and "admitting w" and "visible w = visible v"
  shows "\<exists>w'. foldl (\<lambda>promise listener.
                  then_fn promise (\<lambda>prevArgs. executeListener B listener (currentArgs prevArgs)))
           p ls w0
           = (if fst (reduce_run B (spread acc) ls v) = [] then Fulfilled acc
              else to_promise (ended (last (fst (reduce_run B (spread acc) ls v)))), w')
         \<and> call_log w' = call_log w @ map logged (fst (reduce_run B (spread acc) ls v))
         \<and> visible w' = visible (snd (reduce_run B (spread acc) ls v))"
  using assms
proof (induction ls arbitrary: p w v acc)
  case Nil
  then show ?case by simp
next
  case (Cons l ls)
  let ?step = "\<lambda>promise listener.
                  then_fn promise (\<lambda>prevArgs. executeListener B listener (currentArgs prevArgs))"
  obtain c v1 where inv: "invoke B l (spread acc) v = (c, v1)"
    by (cases "invoke B l (spread acc) v")
  from executeListener_admitting [where as = "spread acc", OF Cons.prems(2) Cons.prems(3) inv]
  obtain w1 where ex: "executeListener B l (spread acc) w = (to_promise c, w1)"
    and vis1: "visible w1 = visible v1"
    and lg1: "call_log w1
               = call_log w @ [logged \<lparr>callee = l, received = spread acc, ended = c\<rparr>]"
    and lim1: "to_promise c \<noteq> Pending \<longrightarrow> limiter w1 = limiter w"
    by blast
  have p': "?step p l w0 = (to_promise c, w1)"
    using Cons.prems(1) ex by (simp add: then_fn_def spread_currentArgs)
  show ?case
  proof (cases "succeeds c")
    case True
    then have tp: "to_promise c = Fulfilled (result_of c)" by (simp add: to_promise_cases)
    have adm1: "admitting w1" by (rule admitting_kept [OF Cons.prems(2) lim1 True])
    from Cons.IH [where p = "?step p l", OF p' [unfolded tp] adm1 vis1] obtain w' where
      run: "foldl ?step (?step p l) ls w0
           = (if fst (reduce_run B (spread (result_of c)) ls v1) = [] then Fulfilled (result_of c)
              else to_promise (ended (last (fst (reduce_run B (spread (result_of c)) ls v1)))), w')"
      and lg: "call_log w'
                = call_log w1 @ map logged (fst (reduce_run B (spread (result_of c)) ls v1))"
      and vis: "visible w' = visible (snd (reduce_run B (spread (result_of c)) ls v1))"
      by blast
    from run lg vis lg1 inv True tp show ?thesis
      by (intro exI [of _ w']) (auto simp: split_beta)
  next
    case False
    then have nf: "\<not> is_fulfilled (to_promise c)" by (simp add: succeeds_iff)
    from reduce_passes_on [where p = "?step p l" and B = B and ls = ls, OF p' nf]
    have "foldl ?step (?step p l) ls w0 = (to_promise c, w1)" .
    with lg1 vis1 inv False show ?thesis
      by (intro exI [of _ w1]) (simp add: split_beta)
  qed
qed

lemma parallel_refines:
  fixes B :: "'u behaviour"
  assumes "admitting w" and "visible w = visible v"
    and "limiter w = None \<or> (\<forall>c\<in>set (fst (parallel_run B as ls v)). succeeds (ended c))"
  shows "\<exists>w'. foldl (\<lambda>(ps, w0) listener.
                     let (p, w1) = executeListener B listener as w0 in (ps @ [p], w1))
                  (before, w) ls
           = (before @ map (\<lambda>c. to_promise (ended c)) (fst (parallel_run B as ls v)), w')
         \<and> call_log w' = call_log w @ map logged (fst (parallel_run B as ls v))
         \<and> visible w' = visible (snd (parallel_run B as ls v))"
  using assms
proof (induction ls arbitrary: w v before)
  case Nil
  then show ?case by simp
next
  case (Cons l ls)
  let ?f = "\<lambda>(ps, w0) listener.
                     let (p, w1) = executeListener B listener as w0 in (ps @ [p], w1)"
  obtain c v1 where inv: "invoke B l as v = (c, v1)" by (cases "invoke B l as v")
  from executeListener_admitting [where as = as, OF Cons.prems(1) Cons.prems(2) inv]
  obtain w1 where ex: "executeListener B l as w = (to_promise c, w1)"
    and vis1: "visible w1 = visible v1"
    and lg1: "call_log w1 = call_log w @ [logged \<lparr>callee = l, received = as, ended = c\<rparr>]"
    and lim1: "to_promise c \<noteq> Pending \<longrightarrow> limiter w1 = limiter w"
    and lim0: "limiter w = None \<longrightarrow> limiter w1 = None"
    by auto
  have rest: "limiter w1 = None \<or> (\<forall>c\<in>set (fst (parallel_run B as ls v1)). succeeds (ended c))"
    using Cons.prems(3) inv lim0 by (auto simp: split_beta)
  have adm1: "admitting w1"
  proof (cases "limiter w = None")
    case True
    with lim0 show ?thesis by (simp add: admitting_def)
  next
    case False
    with Cons.prems(3) inv have "succeeds c" by (auto simp: split_beta)
    from admitting_kept [OF Cons.prems(1) lim1 this] show ?thesis .
  qed
  from Cons.IH [OF adm1 vis1 rest, of "before @ [to_promise c]"] obtain w' where
    run: "foldl ?f (before @ [to_promise c], w1) ls
           = ((before @ [to_promise c]) @ map (\<lambda>c. to_promise (ended c))
                (fst (parallel_run B as ls v1)), w')"
    and lg: "call_log w' = call_log w1 @ map logged (fst (parallel_run B as ls v1))"
    and vis: "visible w' = visible (snd (parallel_run B as ls v1))"
    by blast
  have fold: "foldl ?f (before, w) (l # ls) = foldl ?f (before @ [to_promise c], w1) ls"
    using ex by simp
  have par: "parallel_run B as (l # ls) v
              = (\<lparr>callee = l, received = as, ended = c\<rparr> # fst (parallel_run B as ls v1),
                 snd (parallel_run B as ls v1))"
    using inv by (simp add: split_beta)
  from run lg vis lg1 show ?case
    unfolding fold par by (intro exI [of _ w']) simp
qed

lemma emitSerial_refines:
  fixes B :: "'u behaviour"
  assumes "admitting w"
  shows "fst (emitSerial B ev as w)
           = (if \<forall>c\<in>set (fst (serial_run B as (listeners ev w) w)). succeeds (ended c)
              then Fulfilled (JArr (map (\<lambda>c. result_of (ended c))
                     (fst (serial_run B as (listeners ev w) w))))
              else to_promise (ended (last (fst (serial_run B as (listeners ev w) w)))))
       \<and> new_calls w (snd (emitSerial B ev as w))
           = map logged (fst (serial_run B as (listeners ev w) w))
       \<and> visible (snd (emitSerial B ev as w))
           = visible (snd (serial_run B as (listeners ev w) w))"
proof -
  have p: "promise_resolve (JArr []) w = (Fulfilled (JArr []), w)"
    by (simp add: promise_resolve_def)
  from serial_refines [where p = "promise_resolve (JArr [])" and B = B and as = as
      and ls = "listeners ev w", OF p assms refl]
  show ?thesis by (auto simp: emitSerial_def new_calls_def)
qed

lemma emitReduceRun_refines:
  fixes B :: "'u behaviour" and ev :: event and inverse_order :: bool
  assumes "admitting w"
  defines "ls \<equiv> (if inverse_order then rev (listeners ev w) else listeners ev w)"
  shows "fst (emitReduceRun B ev as inverse_order w)
           = (if fst (reduce_run B as ls w) = [] then Fulfilled (JArr as)
              else to_promise (ended (last (fst (reduce_run B as ls w)))))
       \<and> new_calls w (snd (emitReduceRun B ev as inverse_order w))
           = map logged (fst (reduce_run B as ls w))
       \<and> visible (snd (emitReduceRun B ev as inverse_order w))
           = visible (snd (reduce_run B as ls w))"
proof -
  have p: "promise_resolve (JArr as) w = (Fulfilled (JArr as), w)"
    by (simp add: promise_resolve_def)
  from reduce_refines [where p = "promise_resolve (JArr as)" and B = B and ls = ls,
      OF p assms(1) refl]
  show ?thesis by (auto simp: emitReduceRun_def new_calls_def ls_def Let_def)
qed

lemma emitParallel_refines:
  fixes B :: "'u behaviour"
  assumes "admitting w"
    and "limiter w = None
         \<or> (\<forall>c\<in>set (fst (parallel_run B as (listeners ev w) w)). succeeds (ended c))"
  shows "fst (emitParallel B ev as w)
           = Promise_all (map (\<lambda>c. to_promise (ended c))
               (fst (parallel_run B as (listeners ev w) w)))
       \<and> new_calls w (snd (emitParallel B ev as w))
           = map logged (fst (parallel_run B as (listeners ev w) w))
       \<and> visible (snd (emitParallel B ev as w))
           = visible (snd (parallel_run B as (listeners ev w) w))"
proof -
  from parallel_refines [where B = B and as = as and ls = "listeners ev w" and before = "[]",
      OF assms(1) refl assms(2)]
  show ?thesis by (auto simp: emitParallel_def new_calls_def)
qed

subsection \<open>An exhausted limiter\<close>

lemma emitSerial_exhausted:
  fixes B :: "'u behaviour"
  assumes "\<not> admitting w" and "listeners ev w \<noteq> []"
  shows "fst (emitSerial B ev as w) = Pending \<and> visible (snd (emitSerial B ev as w)) = visible w"
proof -
  from assms(2) obtain l ls where ls: "listeners ev w = l # ls" by (cases "listeners ev w") auto
  let ?step = "\<lambda>promise listener.
              then_fn promise (\<lambda>values.
                then_fn (executeListener B listener as) (\<lambda>v. push values v))"
  let ?w1 = "w\<lparr>call_log := call_log w @ [\<lparr>fn = l, args = as, outcome = Pending\<rparr>]\<rparr>"
  have p: "?step (promise_resolve (JArr [])) l w = (Pending, ?w1)"
    by (simp add: then_fn_def promise_resolve_def executeListener_exhausted [OF assms(1)])
  from serial_passes_on [where p = "?step (promise_resolve (JArr [])) l" and B = B and as = as
      and ls = ls, OF p]
  have "emitSerial B ev as w = (Pending, ?w1)" by (simp add: emitSerial_def ls)
  then show ?thesis by (simp add: visible_def)
qed

lemma emitReduceRun_exhausted:
  fixes B :: "'u behaviour"
  assumes "\<not> admitting w" and "listeners ev w \<noteq> []"
  shows "fst (emitReduceRun B ev as inverse_order w) = Pending
       \<and> visible (snd (emitReduceRun B ev as inverse_order w)) = visible w"
proof -
  let ?ls = "if inverse_order then rev (listeners ev w) else listeners ev w"
  from assms(2) have "?ls \<noteq> []" by simp
  then obtain l ls where ls: "?ls = l # ls" by (cases ?ls) auto
  let ?step = "\<lambda>promise listener.
                  then_fn promise (\<lambda>prevArgs. executeListener B listener (currentArgs prevArgs))"
  let ?w1 = "w\<lparr>call_log := call_log w
                 @ [\<lparr>fn = l, args = currentArgs (JArr as), outcome = Pending\<rparr>]\<rparr>"
  have p: "?step (promise_resolve (JArr as)) l w = (Pending, ?w1)"
    by (simp add: then_fn_def promise_resolve_def executeListener_exhausted [OF assms(1)])
  from reduce_passes_on [where p = "?step (promise_resolve (JArr as)) l" and B = B
      and ls = ls, OF p]
  have "emitReduceRun B ev as inverse_order w = (Pending, ?w1)"
    unfolding emitReduceRun_def Let_def ls by simp
  then show ?thesis by (simp add: visible_def)
qed

lemma parallel_exhausted:
  fixes B :: "'u behaviour"
  assumes "\<not> admitting w"
  shows "\<exists>w'. foldl (\<lambda>(ps, w0) listener.
                     let (p, w1) = executeListener B listener as w0 in (ps @ [p], w1))
                  (before, w) ls
           = (before @ replicate (length ls) Pending, w')
         \<and> visible w' = visible w \<and> limiter w' = limiter w"
  using assms
proof (induction ls arbitrary: w before)
  case Nil
  then show ?case by simp
next
  case (Cons l ls)
  let ?f = "\<lambda>(ps, w0) listener.
                     let (p, w1) = executeListener B listener as w0 in (ps @ [p], w1)"
  let ?w1 = "w\<lparr>call_log := call_log w @ [\<lparr>fn = l, args = as, outcome = Pending\<rparr>]\<rparr>"
  have fold: "foldl ?f (before, w) (l # ls) = foldl ?f (before @ [Pending], ?w1) ls"
    by (simp add: executeListener_exhausted [OF Cons.prems])
  have "\<not> admitting ?w1" using Cons.prems by (simp add: admitting_def)
  from Cons.IH [OF this, of "before @ [Pending]"] obtain w' where
    "foldl ?f (before @ [Pending], ?w1) ls
       = ((before @ [Pending]) @ replicate (length ls) Pending, w')"
    and "visible w' = visible ?w1" and "limiter w' = limiter ?w1" by blast
  then show ?case unfolding fold
    by (intro exI [of _ w']) (simp add: visible_def replicate_append_same)
qed

lemma Promise_all_pending: "Promise_all (replicate (Suc n) Pending) = StaysPending"
proof -
  have "rejections (replicate k Pending) = []" for k by (induction k) simp_all
  then show ?thesis by (simp add: Promise_all_def)
qed

lemma emitParallel_exhausted:
  fixes B :: "'u behaviour"
  assumes "\<not> admitting w" and "listeners ev w \<noteq> []"
  shows "fst (emitParallel B ev as w) = StaysPending
       \<and> visible (snd (emitParallel B ev as w)) = visible w"
proof -
  from assms(2) obtain n where n: "length (listeners ev w) = Suc n"
    by (cases "listeners ev w") auto
  from parallel_exhausted [where B = B and as = as and before = "[]"
      and ls = "listeners ev w", OF assms(1)] n
  show ?thesis
    using Promise_all_pending [of n] by (auto simp: emitParallel_def)
qed

subsection \<open>The shape of the runs\<close>

lemma serial_run_shape:
  "map callee (fst (serial_run B as ls w)) = take (length (fst (serial_run B as ls w))) ls
   \<and> (\<forall>c\<in>set (fst (serial_run B as ls w)). received c = as)
   \<and> (\<forall>c\<in>set (butlast (fst (serial_run B as ls w))). succeeds (ended c))
   \<and> ((\<forall>c\<in>set (fst (serial_run B as ls w)). succeeds (ended c))
        \<longrightarrow> length (fst (serial_run B as ls w)) = length ls)
   \<and> (ls \<noteq> [] \<longrightarrow> fst (serial_run B as ls w) \<noteq> [])"
proof (induction ls arbitrary: w)
  case Nil
  show ?case by simp
next
  case (Cons l ls)
  obtain c w1 where inv: "invoke B l as w = (c, w1)" by (cases "invoke B l as w")
  from Cons.IH [of w1] inv show ?case
    by (cases "succeeds c") (auto simp: split_beta)
qed

lemma reduce_run_shape:
  "map callee (fst (reduce_run B as ls w)) = take (length (fst (reduce_run B as ls w))) ls
   \<and> (\<forall>i<length (fst (reduce_run B as ls w)).
        received (fst (reduce_run B as ls w) ! i) =
          (if i = 0 then as
           else spread (result_of (ended (fst (reduce_run B as ls w) ! (i - 1))))))
   \<and> (\<forall>c\<in>set (butlast (fst (reduce_run B as ls w))). succeeds (ended c))
   \<and> ((\<forall>c\<in>set (fst (reduce_run B as ls w)). succeeds (ended c))
        \<longrightarrow> length (fst (reduce_run B as ls w)) = length ls)
   \<and> (ls \<noteq> [] \<longrightarrow> fst (reduce_run B as ls w) \<noteq> [])"
proof (induction ls arbitrary: w as)
  case Nil
  show ?case by simp
next
  case (Cons l ls)
  obtain c w1 where inv: "invoke B l as w = (c, w1)" by (cases "invoke B l as w")
  show ?case
  proof (cases "succeeds c")
    case False
    with inv show ?thesis by (simp add: split_beta)
  next
    case True
    let ?cs = "fst (reduce_run B (spread (result_of c)) ls w1)"
    let ?e = "\<lparr>callee = l, received = as, ended = c\<rparr>"
    have eq: "fst (reduce_run B as (l # ls) w) = ?e # ?cs"
      using inv True by (simp add: split_beta)
    note ih = Cons.IH [of "spread (result_of c)" w1]
    have a: "map callee (?e # ?cs) = take (length (?e # ?cs)) (l # ls)"
      using ih by simp
    have b: "received ((?e # ?cs) ! i) =
          (if i = 0 then as else spread (result_of (ended ((?e # ?cs) ! (i - 1)))))"
      if "i < length (?e # ?cs)" for i
    proof (cases i)
      case 0
      then show ?thesis by simp
    next
      case (Suc j)
      with that have j: "j < length ?cs" by simp
      with ih have "received (?cs ! j) =
          (if j = 0 then spread (result_of c) else spread (result_of (ended (?cs ! (j - 1)))))"
        by blast
      with Suc show ?thesis by (cases j) simp_all
    qed
    have c': "\<forall>c\<in>set (butlast (?e # ?cs)). succeeds (ended c)"
      using ih True by auto
    have d: "(\<forall>c\<in>set (?e # ?cs). succeeds (ended c))
              \<longrightarrow> length (?e # ?cs) = length (l # ls)"
      using ih by simp
    from a b c' d show ?thesis unfolding eq by blast
  qed
qed

lemma parallel_run_shape:
  "map callee (fst (parallel_run B as ls w)) = ls
   \<and> (\<forall>c\<in>set (fst (parallel_run B as ls w)). received c = as)"
proof (induction ls arbitrary: w)
  case Nil
  show ?case by simp
next
  case (Cons l ls)
  obtain c w1 where inv: "invoke B l as w = (c, w1)" by (cases "invoke B l as w")
  from Cons.IH [of w1] inv show ?case by (simp add: split_beta)
qed

lemma last_does_not_succeed:
  assumes "\<forall>c\<in>set (butlast cs). succeeds (ended c)" and "\<not> (\<forall>c\<in>set cs. succeeds (ended c))"
  shows "cs \<noteq> [] \<and> \<not> succeeds (ended (last cs))"
  using assms by (cases cs rule: rev_cases) auto

lemma run_stops:
  assumes fns: "map callee cs = take (length cs) ls"
    and bl: "\<forall>c\<in>set (butlast cs). succeeds (ended c)"
    and res: "res = (if \<forall>c\<in>set cs. succeeds (ended c) then Fulfilled r
                     else to_promise (ended (last cs)))"
  shows "stops_at_first_failure ls cs res"
proof -
  have idx: "\<forall>i. Suc i < length cs \<longrightarrow> succeeds (ended (cs ! i))"
    using butlast_nth_all [OF bl] by blast
  have a: "Suc i = length cs \<and> res = Rejected (error_of (ended (cs ! i)))"
    if i: "i < length cs" and f: "fails (ended (cs ! i))" for i
  proof -
    from f have ns: "\<not> succeeds (ended (cs ! i))" by (rule fails_not_succeeds)
    with idx i have l: "Suc i = length cs" by (metis Suc_lessI)
    then have ne: "cs \<noteq> []" by auto
    from l have la: "last cs = cs ! i" using last_conv_nth [OF ne] by (metis diff_Suc_1)
    from ns i have "\<not> (\<forall>c\<in>set cs. succeeds (ended c))" using nth_mem by blast
    with res la have "res = to_promise (ended (cs ! i))" by simp
    with f l show ?thesis by (simp add: to_promise_cases fails_not_succeeds)
  qed
  have b: "case res of
        Rejected x \<Rightarrow> cs \<noteq> [] \<and> fails (ended (last cs)) \<and> error_of (ended (last cs)) = x
      | p \<Rightarrow> True"
  proof (cases res)
    case (Rejected x)
    show ?thesis
    proof (cases "\<forall>c\<in>set cs. succeeds (ended c)")
      case True
      with res Rejected show ?thesis by simp
    next
      case False
      from last_does_not_succeed [OF bl False] have ne: "cs \<noteq> []" by simp
      from res False Rejected have "to_promise (ended (last cs)) = Rejected x" by simp
      with ne Rejected show ?thesis by (simp add: rejected_iff_fails)
    qed
  qed simp_all
  from fns idx a b show ?thesis unfolding stops_at_first_failure_def by blast
qed

lemma reduce_result_form:
  assumes bl: "\<forall>c\<in>set (butlast cs). succeeds (ended c)"
  shows "(if cs = [] then Fulfilled acc else to_promise (ended (last cs)))
         = (if \<forall>c\<in>set cs. succeeds (ended c)
            then Fulfilled (if cs = [] then acc else result_of (ended (last cs)))
            else to_promise (ended (last cs)))"
proof (cases "cs = []")
  case True
  then show ?thesis by simp
next
  case False
  then show ?thesis by (auto simp: to_promise_cases)
qed

lemma run_threads:
  assumes "map callee cs = take (length cs) ls
   \<and> (\<forall>i<length cs.
        received (cs ! i) =
          (if i = 0 then as else spread (result_of (ended (cs ! (i - 1))))))
   \<and> (\<forall>c\<in>set (butlast cs). succeeds (ended c))
   \<and> ((\<forall>c\<in>set cs. succeeds (ended c)) \<longrightarrow> length cs = length ls)
   \<and> (ls \<noteq> [] \<longrightarrow> cs \<noteq> [])"
  shows "threads_results as ls cs"
proof -
  from assms have bl: "\<forall>c\<in>set (butlast cs). succeeds (ended c)" by blast
  have "\<forall>i. Suc i < length cs \<longrightarrow> succeeds (ended (cs ! i))"
    using butlast_nth_all [OF bl] by blast
  with assms show ?thesis unfolding threads_results_def by blast
qed

subsection \<open>Evaluation of concrete runs\<close>

lemmas run_defs = emitParallel_def emitSerial_def emitReduce_def emitReduceRight_def
  emitReduceRun_def executeListener_def submit_def admits_def occupy_def then_fn_def
  promise_resolve_def Promise_all_def listeners_def new_calls_def on_all_def on_fn_def
  once_fn_def removeListener_def super_removeListener_def remove_last_def new_world_def
  sample_def returned_def currentArgs_def Let_def

lemmas ref_defs = logged_def admitting_def visible_def limited_def echo_wrap_count_def
  throw_then_one_def after_setConcurrency_def setConcurrency_def

lemmas stalled_defs = stalled_def stalled_echo_count_def

subsection \<open>Events without listeners\<close>

text \<open>
  C10. For an event with no registered listener, \<^verbatim>\<open>emitParallel\<close> is fulfilled with the
  empty list and \<^verbatim>\<open>emitSerial\<close> with the empty array, whatever the arguments are; neither
  changes the state.
\<close>

theorem emit_no_listeners:
  assumes "listeners ev w = []"
  shows "emitParallel B ev as w = (AllFulfilled [], w)
       \<and> emitSerial B ev as w = (Fulfilled (JArr []), w)"
  using assms
  by (simp add: emitParallel_def emitSerial_def Promise_all_def promise_resolve_def)

theorem emit_no_listeners_witness:
  "listeners ''foo'' (on_all ''bar'' [User 0] (new_world (0::nat))) = []
   \<and> emitParallel sample ''foo'' [JStr ''bar''] (on_all ''bar'' [User 0] (new_world 0))
       = (AllFulfilled [], on_all ''bar'' [User 0] (new_world 0))
   \<and> emitSerial sample ''foo'' [JStr ''bar''] (on_all ''bar'' [User 0] (new_world 0))
       = (Fulfilled (JArr []), on_all ''bar'' [User 0] (new_world 0))"
proof -
  have h: "listeners ''foo'' (on_all ''bar'' [User 0] (new_world (0::nat))) = []"
    by (simp add: listeners_def on_all_def on_fn_def returned_def new_world_def)
  from h emit_no_listeners [OF h, of sample "[JStr ''bar'']"] show ?thesis by simp
qed

subsection \<open>The concurrency limiter\<close>

text \<open>
  C2, as amended. \<^verbatim>\<open>setConcurrency(n)\<close> hands \<open>n\<close> to the factory \<^verbatim>\<open>pLimit\<close> exactly when
  \<open>n\<close> is a number that is at least 1, whole or not, \<^verbatim>\<open>Infinity\<close> included: the limiter
  the factory returns is installed in place of the old one, and an error the factory
  throws leaves the method with the limiter unchanged. For a number below 1, \<^verbatim>\<open>NaN\<close>,
  \<^verbatim>\<open>-Infinity\<close> and every value that is not a number the call changes nothing and throws
  nothing. A call that does not throw returns the engine. The constructor treats its
  argument as a call of \<^verbatim>\<open>setConcurrency\<close> on the new engine does.
\<close>

theorem setConcurrency_guard:
  "(1 \<le> q \<longrightarrow> setConcurrency P (JNum (Fin q)) w =
       (case P (JNum (Fin q)) of Inl e \<Rightarrow> Inl e | Inr g \<Rightarrow> Inr (w\<lparr>limiter := Some g\<rparr>)))
   \<and> setConcurrency P (JNum PosInf) w =
       (case P (JNum PosInf) of Inl e \<Rightarrow> Inl e | Inr g \<Rightarrow> Inr (w\<lparr>limiter := Some g\<rparr>))
   \<and> (\<not> 1 \<le> q \<longrightarrow> setConcurrency P (JNum (Fin q)) w = Inr w)
   \<and> setConcurrency P (JNum NaN) w = Inr w
   \<and> setConcurrency P (JNum NegInf) w = Inr w
   \<and> (typeof_js c \<noteq> ''number'' \<longrightarrow> setConcurrency P c w = Inr w)
   \<and> constructor_fn P c u = setConcurrency P c (new_world u)"
  by (simp add: constructor_fn_def setConcurrency_def)

theorem setConcurrency_guard_witness:
  "setConcurrency pLimit_strict (JNum (Fin 2)) (new_world (0::nat))
     = Inr ((new_world 0)\<lparr>limiter := Some \<lparr>capacity = Some 2, held = 0\<rparr>\<rparr>)
   \<and> setConcurrency pLimit_strict (JNum (Fin (3/2))) (new_world (0::nat)) = Inl expected_concurrency
   \<and> setConcurrency pLimit_strict (JNum (Fin (1/2))) (new_world (0::nat)) = Inr (new_world 0)
   \<and> setConcurrency pLimit_strict JUndefined (new_world (0::nat)) = Inr (new_world 0)
   \<and> constructor_fn pLimit_strict (JNum (Fin 2)) (0::nat)
     = Inr ((new_world 0)\<lparr>limiter := Some \<lparr>capacity = Some 2, held = 0\<rparr>\<rparr>)"
proof -
  have f: "\<lfloor>3 / 2 :: rat\<rfloor> = 1" by (simp add: floor_eq_iff)
  show ?thesis
    using setConcurrency_guard [of 2 pLimit_strict "new_world (0::nat)" "JNum (Fin 2)" "0::nat"]
      setConcurrency_guard [of "3/2" pLimit_strict "new_world (0::nat)" JUndefined "0::nat"]
      setConcurrency_guard [of "1/2" pLimit_strict "new_world (0::nat)" JUndefined "0::nat"]
    by (simp add: f)
qed

text \<open>
  As the specification states it, 1.5 is ignored without an error. The guard lets 1.5
  through to the factory: a factory that insists on integers throws, one that does not
  installs a limiter.
\<close>

theorem setConcurrency_integer_counterexample:
  "setConcurrency pLimit_strict (JNum (Fin (3/2))) (new_world (0::nat)) \<noteq> Inr (new_world 0)
   \<and> setConcurrency pLimit_lax (JNum (Fin (3/2))) (new_world (0::nat)) \<noteq> Inr (new_world 0)"
proof -
  have f: "\<lfloor>3 / 2 :: rat\<rfloor> = 1" by (simp add: floor_eq_iff)
  have c: "\<lceil>3 / 2 :: rat\<rceil> = 2" by (simp add: ceiling_eq_iff)
  have "limiter (new_world (0::nat)) = None" by (simp add: new_world_def)
  moreover have "setConcurrency pLimit_lax (JNum (Fin (3/2))) (new_world (0::nat))
     = Inr ((new_world 0)\<lparr>limiter := Some \<lparr>capacity = Some 2, held = 0\<rparr>\<rparr>)"
    by (simp add: setConcurrency_def c)
  moreover have "\<And>w :: nat world. limiter w = None \<Longrightarrow> w\<lparr>limiter := Some \<lparr>capacity = Some 2, held = 0\<rparr>\<rparr> \<noteq> w"
    by (metis option.distinct(1) world.select_convs(3) world.surjective world.update_convs(3))
  ultimately show ?thesis
    by (simp add: setConcurrency_def f)
qed

text \<open>
  C9. Once the engine has a limiter, no sequence of calls of \<^verbatim>\<open>setConcurrency\<close> leaves it
  without one: each call either leaves the state as it is or installs the limiter the
  factory returned for its argument.
\<close>

theorem limiter_never_removed:
  assumes "limiter w \<noteq> None"
  shows "limiter (after_setConcurrency_calls P cs w) \<noteq> None
       \<and> (after_setConcurrency P w c = w
          \<or> (\<exists>g. P c = Inr g \<and> after_setConcurrency P w c = w\<lparr>limiter := Some g\<rparr>))"
proof -
  have step: "limiter (after_setConcurrency P w0 c0) \<noteq> None" if "limiter w0 \<noteq> None"
    for w0 :: "'a world" and c0
    using that by (auto simp: after_setConcurrency_def returned_def setConcurrency_def split: sum.splits)
  have "limiter (foldl (after_setConcurrency P) w0 cs) \<noteq> None" if "limiter w0 \<noteq> None"
    for w0 :: "'a world"
    using that
  proof (induction cs arbitrary: w0)
    case Nil
    then show ?case by simp
  next
    case (Cons c0 cs)
    from Cons.IH [OF step [OF Cons.prems, of c0]] show ?case by simp
  qed
  moreover have "after_setConcurrency P w c = w
          \<or> (\<exists>g. P c = Inr g \<and> after_setConcurrency P w c = w\<lparr>limiter := Some g\<rparr>)"
    by (auto simp: after_setConcurrency_def returned_def setConcurrency_def split: sum.splits)
  ultimately show ?thesis using assms by (simp add: after_setConcurrency_calls_def)
qed

theorem limiter_never_removed_witness:
  "limiter (after_setConcurrency pLimit_strict (new_world (0::nat)) (JNum (Fin 2))) \<noteq> None
   \<and> limiter (after_setConcurrency_calls pLimit_strict
        [JUndefined, JNum (Fin 0), JNum (Fin (3/2)), JNum NaN, JNum (Fin 3), JNull]
        (after_setConcurrency pLimit_strict (new_world (0::nat)) (JNum (Fin 2))))
      = Some \<lparr>capacity = Some 3, held = 0\<rparr>"
proof -
  have f: "\<lfloor>3 / 2 :: rat\<rfloor> = 1" by (simp add: floor_eq_iff)
  have h: "limiter (after_setConcurrency pLimit_strict (new_world (0::nat)) (JNum (Fin 2))) \<noteq> None"
    by (simp add: after_setConcurrency_def returned_def setConcurrency_def new_world_def)
  from h limiter_never_removed [OF h, of pLimit_strict
        "[JUndefined, JNum (Fin 0), JNum (Fin (3/2)), JNum NaN, JNum (Fin 3), JNull]" JNull]
  show ?thesis
    by (simp add: after_setConcurrency_calls_def after_setConcurrency_def returned_def
        setConcurrency_def
        new_world_def f)
qed

subsection \<open>emitSerial\<close>

text \<open>
  C7. In an engine that lets listeners run, \<^verbatim>\<open>emitSerial\<close> carries out the serial run of
  the registered listeners: they are called in registration order, each receives the
  original arguments of the call and never a result of another listener, and the state
  they leave is the state the emission leaves. A listener is called only when the call
  before it has succeeded, so not before that promise has settled: a promise that never
  settles is the last one. The emission is fulfilled exactly when every listener has been
  called and has succeeded, then with the array of the listeners' results in registration
  order. In an engine whose limiter has no slot left no listener is ever called: the
  emission stays pending and the state the listeners see is unchanged.
\<close>

theorem emitSerial_same_args_in_order:
  fixes B :: "'u behaviour"
  shows "(admitting w \<longrightarrow>
           (let ls = listeners ev w;
                cs = fst (serial_run B as ls w);
                res = fst (emitSerial B ev as w)
            in new_calls w (snd (emitSerial B ev as w)) = map logged cs
             \<and> visible (snd (emitSerial B ev as w)) = visible (snd (serial_run B as ls w))
             \<and> map callee cs = take (length cs) ls
             \<and> (\<forall>c\<in>set cs. received c = as)
             \<and> (\<forall>i. Suc i < length cs \<longrightarrow> succeeds (ended (cs ! i)))
             \<and> (is_fulfilled res \<longleftrightarrow>
                  length cs = length ls \<and> (\<forall>c\<in>set cs. succeeds (ended c)))
             \<and> (is_fulfilled res \<longrightarrow>
                  res = Fulfilled (JArr (map (\<lambda>c. result_of (ended c)) cs)))))
       \<and> (\<not> admitting w \<and> listeners ev w \<noteq> [] \<longrightarrow>
            fst (emitSerial B ev as w) = Pending
          \<and> visible (snd (emitSerial B ev as w)) = visible w)"
    (is "(_ \<longrightarrow> ?P) \<and> (_ \<longrightarrow> ?Q)")
proof (rule conjI; rule impI)
  assume "\<not> admitting w \<and> listeners ev w \<noteq> []"
  then show ?Q using emitSerial_exhausted [of w ev B as] by blast
next
  assume adm: "admitting w"
  let ?cs = "fst (serial_run B as (listeners ev w) w)"
  note r = emitSerial_refines [OF adm, of B ev as]
  note sh = serial_run_shape [of B as "listeners ev w" w]
  from sh have bl: "\<forall>c\<in>set (butlast ?cs). succeeds (ended c)" by blast
  have idx: "\<forall>i. Suc i < length ?cs \<longrightarrow> succeeds (ended (?cs ! i))"
    using butlast_nth_all [OF bl] by blast
  have iff: "is_fulfilled (fst (emitSerial B ev as w))
             \<longleftrightarrow> length ?cs = length (listeners ev w) \<and> (\<forall>c\<in>set ?cs. succeeds (ended c))"
  proof (cases "\<forall>c\<in>set ?cs. succeeds (ended c)")
    case True
    with r sh show ?thesis by simp
  next
    case False
    from r False have "fst (emitSerial B ev as w) = to_promise (ended (last ?cs))"
      by simp
    moreover from last_does_not_succeed [OF bl False]
    have "\<not> is_fulfilled (to_promise (ended (last ?cs)))" by (simp add: succeeds_iff)
    ultimately show ?thesis using False by simp
  qed
  have val: "is_fulfilled (fst (emitSerial B ev as w)) \<longrightarrow>
       fst (emitSerial B ev as w) = Fulfilled (JArr (map (\<lambda>c. result_of (ended c)) ?cs))"
    using iff r by simp
  from r sh idx iff val show ?P unfolding Let_def by blast
qed

theorem emitSerial_same_args_in_order_witness:
  "admitting echo_wrap_count
   \<and> listeners ''delay'' echo_wrap_count = [User 0, User 6, User 4]
   \<and> fst (serial_run sample [JStr ''bar''] [User 0, User 6, User 4] echo_wrap_count)
     = [\<lparr>callee = User 0, received = [JStr ''bar''], ended = Returns (JStr ''bar'')\<rparr>,
        \<lparr>callee = User 6, received = [JStr ''bar''], ended = Returns (JArr [JStr ''bar''])\<rparr>,
        \<lparr>callee = User 4, received = [JStr ''bar''],
           ended = ReturnsPromise (Fulfilled (JNum (Fin 0)))\<rparr>]
   \<and> fst (emitSerial sample ''delay'' [JStr ''bar''] echo_wrap_count)
     = Fulfilled (JArr [JStr ''bar'', JArr [JStr ''bar''], JNum (Fin 0)])
   \<and> user (snd (emitSerial sample ''delay'' [JStr ''bar''] echo_wrap_count)) = 1
   \<and> map outcome (new_calls echo_wrap_count
        (snd (emitSerial sample ''delay'' [JStr ''bar''] echo_wrap_count)))
     = [Fulfilled (JStr ''bar''), Fulfilled (JArr [JStr ''bar'']), Fulfilled (JNum (Fin 0))]
   \<and> \<not> admitting stalled_echo_count
   \<and> listeners ''delay'' stalled_echo_count = [User 0, User 4]
   \<and> fst (emitSerial sample ''delay'' [JStr ''bar''] stalled_echo_count) = Pending
   \<and> user (snd (emitSerial sample ''delay'' [JStr ''bar''] stalled_echo_count)) = 0"
proof -
  have a: "admitting echo_wrap_count" by (simp add: ref_defs run_defs)
  have n: "\<not> admitting stalled_echo_count" by (simp add: ref_defs stalled_defs run_defs)
  from a n
    emitSerial_same_args_in_order
      [where B = sample and ev = "''delay''" and as = "[JStr ''bar'']"
        and w = echo_wrap_count]
    emitSerial_same_args_in_order
      [where B = sample and ev = "''delay''" and as = "[JStr ''bar'']"
        and w = stalled_echo_count]
  show ?thesis by (simp add: ref_defs stalled_defs run_defs)
qed

subsection \<open>Failure in the sequential strategies\<close>

text \<open>
  C8. In an engine that lets listeners run, \<^verbatim>\<open>emitSerial\<close>, \<^verbatim>\<open>emitReduce\<close> and
  \<^verbatim>\<open>emitReduceRight\<close> carry out the serial run and the reductions of the registered
  listeners, and a listener that fails, by a throw or by a rejected promise, is the last
  listener called: the chain stops at the first failure in the order of the strategy, no
  later listener is called, and the emission is rejected with exactly the error of that
  listener. In an engine whose limiter has no slot left no listener is ever called, so
  none fails: the three emissions stay pending and the state the listeners see is
  unchanged.
\<close>

theorem sequential_strategies_stop_at_first_failure:
  fixes B :: "'u behaviour"
  shows "(admitting w \<longrightarrow>
          (let cs = fst (serial_run B as (listeners ev w) w); run = emitSerial B ev as w
           in stops_at_first_failure (listeners ev w) cs (fst run)
            \<and> new_calls w (snd run) = map logged cs
            \<and> visible (snd run) = visible (snd (serial_run B as (listeners ev w) w)))
        \<and> (let cs = fst (reduce_run B as (listeners ev w) w); run = emitReduce B ev as w
           in stops_at_first_failure (listeners ev w) cs (fst run)
            \<and> new_calls w (snd run) = map logged cs
            \<and> visible (snd run) = visible (snd (reduce_run B as (listeners ev w) w)))
        \<and> (let cs = fst (reduce_run B as (rev (listeners ev w)) w);
               run = emitReduceRight B ev as w
           in stops_at_first_failure (rev (listeners ev w)) cs (fst run)
            \<and> new_calls w (snd run) = map logged cs
            \<and> visible (snd run) = visible (snd (reduce_run B as (rev (listeners ev w)) w))))
       \<and> (\<not> admitting w \<and> listeners ev w \<noteq> [] \<longrightarrow>
            fst (emitSerial B ev as w) = Pending
          \<and> visible (snd (emitSerial B ev as w)) = visible w
          \<and> fst (emitReduce B ev as w) = Pending
          \<and> visible (snd (emitReduce B ev as w)) = visible w
          \<and> fst (emitReduceRight B ev as w) = Pending
          \<and> visible (snd (emitReduceRight B ev as w)) = visible w)"
    (is "(_ \<longrightarrow> ?P) \<and> (_ \<longrightarrow> ?Q)")
proof (rule conjI; rule impI)
  assume "\<not> admitting w \<and> listeners ev w \<noteq> []"
  then show ?Q
    using emitSerial_exhausted [of w ev B as] emitReduceRun_exhausted [of w ev B as False]
      emitReduceRun_exhausted [of w ev B as True]
    by (simp add: emitReduce_def emitReduceRight_def)
next
  assume adm: "admitting w"
  note s = emitSerial_refines [where B = B and ev = ev and as = as, OF adm]
  note ssh = serial_run_shape [of B as "listeners ev w" w]
  from ssh have sbl: "\<forall>c\<in>set (butlast (fst (serial_run B as (listeners ev w) w))).
                         succeeds (ended c)" by blast
  from ssh have sfn: "map callee (fst (serial_run B as (listeners ev w) w))
         = take (length (fst (serial_run B as (listeners ev w) w))) (listeners ev w)" by blast
  from s have sres: "fst (emitSerial B ev as w)
           = (if \<forall>c\<in>set (fst (serial_run B as (listeners ev w) w)). succeeds (ended c)
              then Fulfilled (JArr (map (\<lambda>c. result_of (ended c))
                     (fst (serial_run B as (listeners ev w) w))))
              else to_promise (ended (last (fst (serial_run B as (listeners ev w) w)))))"
    by blast
  have 1: "stops_at_first_failure (listeners ev w) (fst (serial_run B as (listeners ev w) w))
             (fst (emitSerial B ev as w))"
    by (rule run_stops [OF sfn sbl sres])
  have red: "stops_at_first_failure ls (fst (reduce_run B as ls w))
               (fst (emitReduceRun B ev as inverse_order w))"
    if ls: "ls = (if inverse_order then rev (listeners ev w) else listeners ev w)"
    for ls inverse_order
  proof -
    note f = emitReduceRun_refines
      [where B = B and ev = ev and as = as and inverse_order = inverse_order, OF adm]
    note fsh = reduce_run_shape [of B as ls w]
    from fsh have fbl: "\<forall>c\<in>set (butlast (fst (reduce_run B as ls w))). succeeds (ended c)"
      by blast
    from fsh have ffn: "map callee (fst (reduce_run B as ls w))
         = take (length (fst (reduce_run B as ls w))) ls" by blast
    from f have "fst (emitReduceRun B ev as inverse_order w)
           = (if fst (reduce_run B as ls w) = [] then Fulfilled (JArr as)
              else to_promise (ended (last (fst (reduce_run B as ls w)))))"
      unfolding ls by blast
    then have fres: "fst (emitReduceRun B ev as inverse_order w)
           = (if \<forall>c\<in>set (fst (reduce_run B as ls w)). succeeds (ended c)
            then Fulfilled (if fst (reduce_run B as ls w) = [] then JArr as
                            else result_of (ended (last (fst (reduce_run B as ls w)))))
            else to_promise (ended (last (fst (reduce_run B as ls w)))))"
      unfolding reduce_result_form [OF fbl, of "JArr as"] .
    show ?thesis by (rule run_stops [OF ffn fbl fres])
  qed
  note f = emitReduceRun_refines
      [where B = B and ev = ev and as = as and inverse_order = False, OF adm]
  note b = emitReduceRun_refines
      [where B = B and ev = ev and as = as and inverse_order = True, OF adm]
  from 1 red [of "listeners ev w" False] red [of "rev (listeners ev w)" True] s f b
  show ?P
    unfolding Let_def by (simp add: emitReduce_def emitReduceRight_def)
qed

theorem sequential_strategies_stop_at_first_failure_witness:
  "admitting throw_then_one
   \<and> listeners ''delay'' throw_then_one = [User 3, User 5]
   \<and> fst (serial_run sample [] [User 3, User 5] throw_then_one)
     = [\<lparr>callee = User 3, received = [], ended = Throws (JError ''boop'')\<rparr>]
   \<and> fst (emitSerial sample ''delay'' [] throw_then_one) = Rejected (JError ''boop'')
   \<and> map fn (new_calls throw_then_one (snd (emitSerial sample ''delay'' [] throw_then_one)))
     = [User 3]
   \<and> fst (emitReduce sample ''delay'' [] throw_then_one) = Rejected (JError ''boop'')
   \<and> fst (reduce_run sample [] [User 5, User 3] throw_then_one)
     = [\<lparr>callee = User 5, received = [], ended = Returns (JNum (Fin 1))\<rparr>,
        \<lparr>callee = User 3, received = [JNum (Fin 1)], ended = Throws (JError ''boop'')\<rparr>]
   \<and> fst (emitReduceRight sample ''delay'' [] throw_then_one) = Rejected (JError ''boop'')
   \<and> admitting one_succeeds_two_fail
   \<and> map ended (fst (serial_run sample [JNum (Fin 100)] [User 4, User 2, User 3]
        one_succeeds_two_fail))
     = [ReturnsPromise (Fulfilled (JNum (Fin 0))), ReturnsPromise (Rejected (JError ''beep''))]
   \<and> fst (emitSerial sample ''delay'' [JNum (Fin 100)] one_succeeds_two_fail)
     = Rejected (JError ''beep'')
   \<and> user (snd (emitSerial sample ''delay'' [JNum (Fin 100)] one_succeeds_two_fail)) = 1
   \<and> \<not> admitting stalled_echo_count
   \<and> listeners ''delay'' stalled_echo_count = [User 0, User 4]
   \<and> fst (emitSerial sample ''delay'' [] stalled_echo_count) = Pending
   \<and> fst (emitReduce sample ''delay'' [] stalled_echo_count) = Pending
   \<and> fst (emitReduceRight sample ''delay'' [] stalled_echo_count) = Pending
   \<and> user (snd (emitReduceRight sample ''delay'' [] stalled_echo_count)) = 0"
proof -
  have a: "admitting throw_then_one" by (simp add: ref_defs run_defs)
  have b: "admitting one_succeeds_two_fail"
    by (simp add: ref_defs run_defs one_succeeds_two_fail_def)
  have n: "\<not> admitting stalled_echo_count" by (simp add: ref_defs stalled_defs run_defs)
  from a b n
    sequential_strategies_stop_at_first_failure
      [where B = sample and ev = "''delay''" and as = "[]" and w = throw_then_one]
    sequential_strategies_stop_at_first_failure
      [where B = sample and ev = "''delay''" and as = "[JNum (Fin 100)]"
        and w = one_succeeds_two_fail]
    sequential_strategies_stop_at_first_failure
      [where B = sample and ev = "''delay''" and as = "[]" and w = stalled_echo_count]
  show ?thesis by (simp add: ref_defs stalled_defs run_defs one_succeeds_two_fail_def)
qed

subsection \<open>emitReduce and emitReduceRight\<close>

text \<open>
  C5. In an engine that lets listeners run, \<^verbatim>\<open>emitReduce\<close> carries out the reduction of the
  listeners in registration order and \<^verbatim>\<open>emitReduceRight\<close> the one in reverse registration
  order. The first listener receives the original arguments; each later one receives the
  result of the listener before it, spread as the argument list if it is an array and as
  the only argument otherwise. In an engine whose limiter has no slot left no listener is
  ever called: the emission stays pending and the state the listeners see is unchanged.
  With no listener the emission is fulfilled with the original arguments and nothing
  changes: on a new engine \<^verbatim>\<open>emitReduce("noop")\<close> gives \<^verbatim>\<open>[]\<close> and
  \<^verbatim>\<open>emitReduce("noop", 1)\<close> gives \<^verbatim>\<open>[1]\<close>.
\<close>

theorem emitReduce_threads_results:
  fixes B :: "'u behaviour" and B' :: "'v behaviour"
  shows "(admitting w \<longrightarrow>
          (let cs = fst (reduce_run B as (listeners ev w) w); run = emitReduce B ev as w
           in threads_results as (listeners ev w) cs
            \<and> new_calls w (snd run) = map logged cs
            \<and> visible (snd run) = visible (snd (reduce_run B as (listeners ev w) w)))
        \<and> (let cs = fst (reduce_run B as (rev (listeners ev w)) w);
               run = emitReduceRight B ev as w
           in threads_results as (rev (listeners ev w)) cs
            \<and> new_calls w (snd run) = map logged cs
            \<and> visible (snd run) = visible (snd (reduce_run B as (rev (listeners ev w)) w))))
       \<and> (\<not> admitting w \<and> listeners ev w \<noteq> [] \<longrightarrow>
            fst (emitReduce B ev as w) = Pending
          \<and> visible (snd (emitReduce B ev as w)) = visible w
          \<and> fst (emitReduceRight B ev as w) = Pending
          \<and> visible (snd (emitReduceRight B ev as w)) = visible w)
       \<and> (listeners ev w = [] \<longrightarrow>
            emitReduce B ev as w = (Fulfilled (JArr as), w)
          \<and> emitReduceRight B ev as w = (Fulfilled (JArr as), w))
       \<and> fst (emitReduce B' ''noop'' [] (new_world u)) = Fulfilled (JArr [])
       \<and> fst (emitReduce B' ''noop'' [JNum (Fin 1)] (new_world u)) = Fulfilled (JArr [JNum (Fin 1)])"
    (is "(_ \<longrightarrow> ?P) \<and> (_ \<longrightarrow> ?Q) \<and> ?R")
proof -
  have q: ?Q if "\<not> admitting w \<and> listeners ev w \<noteq> []"
    using that emitReduceRun_exhausted [of w ev B as False]
      emitReduceRun_exhausted [of w ev B as True]
    by (simp add: emitReduce_def emitReduceRight_def)
  have r: ?R
    by (simp add: emitReduce_def emitReduceRight_def emitReduceRun_no_listeners
        listeners_new_world)
  have p: ?P if adm: "admitting w"
  proof -
    note f = emitReduceRun_refines
        [where B = B and ev = ev and as = as and inverse_order = False, OF adm]
    note b = emitReduceRun_refines
        [where B = B and ev = ev and as = as and inverse_order = True, OF adm]
    have 1: "threads_results as (listeners ev w) (fst (reduce_run B as (listeners ev w) w))"
      by (rule run_threads [OF reduce_run_shape])
    have 2: "threads_results as (rev (listeners ev w))
               (fst (reduce_run B as (rev (listeners ev w)) w))"
      by (rule run_threads [OF reduce_run_shape])
    from 1 2 f b show ?thesis
      unfolding Let_def by (simp add: emitReduce_def emitReduceRight_def)
  qed
  from p q r show ?thesis by blast
qed

theorem emitReduce_threads_results_witness:
  "admitting limited_one_then_wrap
   \<and> listeners ''normal'' limited_one_then_wrap = [User 5, User 6]
   \<and> fst (reduce_run sample [] [User 5, User 6] limited_one_then_wrap)
     = [\<lparr>callee = User 5, received = [], ended = Returns (JNum (Fin 1))\<rparr>,
        \<lparr>callee = User 6, received = [JNum (Fin 1)], ended = Returns (JArr [JNum (Fin 1)])\<rparr>]
   \<and> fst (emitReduce sample ''normal'' [] limited_one_then_wrap) = Fulfilled (JArr [JNum (Fin 1)])
   \<and> fst (reduce_run sample [] [User 6, User 5] limited_one_then_wrap)
     = [\<lparr>callee = User 6, received = [], ended = Returns (JArr [JUndefined])\<rparr>,
        \<lparr>callee = User 5, received = [JUndefined], ended = Returns (JNum (Fin 1))\<rparr>]
   \<and> fst (emitReduceRight sample ''normal'' [] limited_one_then_wrap) = Fulfilled (JNum (Fin 1))
   \<and> listeners ''noop'' limited_one_then_wrap = []
   \<and> emitReduce sample ''noop'' [JNum (Fin 1)] limited_one_then_wrap
     = (Fulfilled (JArr [JNum (Fin 1)]), limited_one_then_wrap)
   \<and> \<not> admitting stalled_echo_count
   \<and> listeners ''delay'' stalled_echo_count = [User 0, User 4]
   \<and> fst (emitReduce sample ''delay'' [JStr ''bar''] stalled_echo_count) = Pending
   \<and> fst (emitReduceRight sample ''delay'' [JStr ''bar''] stalled_echo_count) = Pending
   \<and> user (snd (emitReduceRight sample ''delay'' [JStr ''bar''] stalled_echo_count)) = 0"
proof -
  have a: "admitting limited_one_then_wrap"
    by (simp add: ref_defs run_defs limited_one_then_wrap_def)
  have n: "\<not> admitting stalled_echo_count" by (simp add: ref_defs stalled_defs run_defs)
  from a n
    emitReduce_threads_results
      [where B = sample and B' = sample and u = 0 and ev = "''normal''" and as = "[]"
        and w = limited_one_then_wrap]
    emitReduce_threads_results
      [where B = sample and B' = sample and u = 0 and ev = "''noop''"
        and as = "[JNum (Fin 1)]" and w = limited_one_then_wrap]
    emitReduce_threads_results
      [where B = sample and B' = sample and u = 0 and ev = "''delay''"
        and as = "[JStr ''bar'']" and w = stalled_echo_count]
  show ?thesis by (simp add: ref_defs stalled_defs run_defs limited_one_then_wrap_def)
qed

text \<open>
  C6, as amended. When an \<^verbatim>\<open>emitReduce\<close> or \<^verbatim>\<open>emitReduceRight\<close> call has at least one
  listener and every call of a listener succeeds, every listener is called, in the order
  of the strategy, and the emission is fulfilled with exactly the result of the last
  listener. The value is not normalized: an array stays that array, and a value \<open>v\<close> that
  is not an array is returned as \<open>v\<close>, not as \<open>[v]\<close>. The engine is one that lets
  listeners run: with no slot left in the limiter no listener is called, so none succeeds
  (\<open>emitReduceRun_exhausted\<close>).
\<close>

theorem emitReduce_resolves_to_last_result:
  fixes B :: "'u behaviour" and ev :: event and inverse_order :: bool
  assumes adm: "admitting w"
  defines "ls \<equiv> (if inverse_order then rev (listeners ev w) else listeners ev w)"
  assumes ne: "ls \<noteq> []"
    and ok: "\<forall>c\<in>set (fst (reduce_run B as ls w)). succeeds (ended c)"
  shows "let cs = fst (reduce_run B as ls w);
             run = (if inverse_order then emitReduceRight B ev as w else emitReduce B ev as w)
         in map callee cs = ls
          \<and> callee (last cs) = last ls
          \<and> fst run = Fulfilled (result_of (ended (last cs)))
          \<and> new_calls w (snd run) = map logged cs
          \<and> visible (snd run) = visible (snd (reduce_run B as ls w))"
proof -
  let ?cs = "fst (reduce_run B as ls w)"
  note r = emitReduceRun_refines
      [where B = B and ev = ev and as = as and inverse_order = inverse_order, OF adm,
       folded ls_def]
  note sh = reduce_run_shape [of B as ls w]
  from sh ok have len: "length ?cs = length ls" by blast
  with sh have fns: "map callee ?cs = ls" by simp
  from len ne have cne: "?cs \<noteq> []" by auto
  from fns cne have la: "callee (last ?cs) = last ls" by (metis last_map)
  from ok cne have "succeeds (ended (last ?cs))" using last_in_set by blast
  then have tp: "to_promise (ended (last ?cs)) = Fulfilled (result_of (ended (last ?cs)))"
    by (simp add: to_promise_cases)
  have run: "(if inverse_order then emitReduceRight B ev as w else emitReduce B ev as w)
              = emitReduceRun B ev as inverse_order w"
    by (simp add: emitReduce_def emitReduceRight_def)
  from r cne tp fns la show ?thesis unfolding Let_def run by simp
qed

theorem emitReduce_resolves_to_last_result_witness:
  "admitting limited_one_then_wrap
   \<and> listeners ''normal'' limited_one_then_wrap = [User 5, User 6]
   \<and> map ended (fst (reduce_run sample [] [User 5, User 6] limited_one_then_wrap))
     = [Returns (JNum (Fin 1)), Returns (JArr [JNum (Fin 1)])]
   \<and> fst (emitReduce sample ''normal'' [] limited_one_then_wrap) = Fulfilled (JArr [JNum (Fin 1)])
   \<and> map ended (fst (reduce_run sample [] [User 6, User 5] limited_one_then_wrap))
     = [Returns (JArr [JUndefined]), Returns (JNum (Fin 1))]
   \<and> fst (emitReduceRight sample ''normal'' [] limited_one_then_wrap) = Fulfilled (JNum (Fin 1))"
proof -
  have a: "admitting limited_one_then_wrap"
    by (simp add: ref_defs run_defs limited_one_then_wrap_def)
  have l: "listeners ''normal'' limited_one_then_wrap = [User 5, User 6]"
    by (simp add: ref_defs run_defs limited_one_then_wrap_def)
  have f: "\<forall>c\<in>set (fst (reduce_run sample []
             (if False then rev (listeners ''normal'' limited_one_then_wrap)
              else listeners ''normal'' limited_one_then_wrap) limited_one_then_wrap)).
             succeeds (ended c)"
    by (simp add: l) (simp add: ref_defs run_defs limited_one_then_wrap_def)
  have b: "\<forall>c\<in>set (fst (reduce_run sample []
             (if True then rev (listeners ''normal'' limited_one_then_wrap)
              else listeners ''normal'' limited_one_then_wrap) limited_one_then_wrap)).
             succeeds (ended c)"
    by (simp add: l) (simp add: ref_defs run_defs limited_one_then_wrap_def)
  from a l
    emitReduce_resolves_to_last_result
      [where B = sample and ev = "''normal''" and as = "[]" and inverse_order = False
        and w = limited_one_then_wrap, OF a _ f]
    emitReduce_resolves_to_last_result
      [where B = sample and ev = "''normal''" and as = "[]" and inverse_order = True
        and w = limited_one_then_wrap, OF a _ b]
  show ?thesis by (simp add: ref_defs run_defs limited_one_then_wrap_def)
qed

text \<open>
  As the specification states it, the last result is normalized as the results in between
  are, where \<^verbatim>\<open>isArray(prevArgs) ? prevArgs : [prevArgs]\<close> makes \<^verbatim>\<open>[1]\<close> of \<^verbatim>\<open>1\<close>. With the
  one listener \<^verbatim>\<open>() => 1\<close> the emission is fulfilled with \<^verbatim>\<open>1\<close>.
\<close>

theorem emitReduce_result_not_normalized_counterexample:
  "listeners ''normal'' only_one = [User 5]
   \<and> sample 5 [] 0 = (Returns (JNum (Fin 1)), 0)
   \<and> fst (emitReduce sample ''normal'' [] only_one) = Fulfilled (JNum (Fin 1))
   \<and> fst (emitReduce sample ''normal'' [] only_one) \<noteq> Fulfilled (JArr (currentArgs (JNum (Fin 1))))"
  by (simp add: only_one_def run_defs)

subsection \<open>emitParallel\<close>

text \<open>
  C4. In an engine that lets listeners run, \<^verbatim>\<open>emitParallel\<close> calls every registered
  listener, in registration order and each with the arguments of the call. When every
  listener succeeds the emission is fulfilled with the list of the listeners' results in
  registration order. A promise is its final state here, so the order in which the
  promises settle is no input of the result. An engine whose limiter has no slot left
  calls no listener, so none succeeds there (\<open>emitParallel_exhausted\<close>).
\<close>

theorem emitParallel_registration_order:
  fixes B :: "'u behaviour"
  assumes adm: "admitting w"
    and ok: "\<forall>c\<in>set (fst (parallel_run B as (listeners ev w) w)). succeeds (ended c)"
  shows "let cs = fst (parallel_run B as (listeners ev w) w); run = emitParallel B ev as w
         in map callee cs = listeners ev w
          \<and> (\<forall>c\<in>set cs. received c = as)
          \<and> fst run = AllFulfilled (map (\<lambda>c. result_of (ended c)) cs)
          \<and> new_calls w (snd run) = map logged cs
          \<and> visible (snd run) = visible (snd (parallel_run B as (listeners ev w) w))"
proof -
  let ?cs = "fst (parallel_run B as (listeners ev w) w)"
  from ok have ok': "limiter w = None \<or> (\<forall>c\<in>set ?cs. succeeds (ended c))" by blast
  note r = emitParallel_refines [where B = B and ev = ev and as = as, OF adm ok']
  note sh = parallel_run_shape [of B as "listeners ev w" w]
  from ok have "\<forall>p\<in>set (map (\<lambda>c. to_promise (ended c)) ?cs). is_fulfilled p"
    by (simp add: succeeds_iff)
  from Promise_all_fulfilled [OF this]
  have "Promise_all (map (\<lambda>c. to_promise (ended c)) ?cs)
          = AllFulfilled (map (\<lambda>c. value_of (to_promise (ended c))) ?cs)"
    by (simp add: comp_def)
  also have "map (\<lambda>c. value_of (to_promise (ended c))) ?cs = map (\<lambda>c. result_of (ended c)) ?cs"
    using ok by (simp add: value_of_to_promise)
  finally have "fst (emitParallel B ev as w) = AllFulfilled (map (\<lambda>c. result_of (ended c)) ?cs)"
    using r by simp
  with r sh show ?thesis unfolding Let_def by blast
qed

theorem emitParallel_registration_order_witness:
  "admitting echo_wrap_count
   \<and> listeners ''delay'' echo_wrap_count = [User 0, User 6, User 4]
   \<and> fst (parallel_run sample [JStr ''bar''] [User 0, User 6, User 4] echo_wrap_count)
     = [\<lparr>callee = User 0, received = [JStr ''bar''], ended = Returns (JStr ''bar'')\<rparr>,
        \<lparr>callee = User 6, received = [JStr ''bar''], ended = Returns (JArr [JStr ''bar''])\<rparr>,
        \<lparr>callee = User 4, received = [JStr ''bar''],
           ended = ReturnsPromise (Fulfilled (JNum (Fin 0)))\<rparr>]
   \<and> fst (emitParallel sample ''delay'' [JStr ''bar''] echo_wrap_count)
     = AllFulfilled [JStr ''bar'', JArr [JStr ''bar''], JNum (Fin 0)]
   \<and> user (snd (emitParallel sample ''delay'' [JStr ''bar''] echo_wrap_count)) = 1"
proof -
  have a: "admitting echo_wrap_count" by (simp add: ref_defs run_defs)
  have l: "listeners ''delay'' echo_wrap_count = [User 0, User 6, User 4]"
    by (simp add: ref_defs run_defs)
  have ok: "\<forall>c\<in>set (fst (parallel_run sample [JStr ''bar'']
               (listeners ''delay'' echo_wrap_count) echo_wrap_count)). succeeds (ended c)"
    by (simp add: l) (simp add: ref_defs run_defs)
  from a l emitParallel_registration_order [OF a ok]
  show ?thesis by (simp add: ref_defs run_defs)
qed


subsection \<open>The entries of onceMap\<close>

text \<open>
  \<^verbatim>\<open>subscribe\<close> with \<^verbatim>\<open>once = true\<close> is \<^verbatim>\<open>once\<close>. \<^verbatim>\<open>once\<close> records the wrapper under the
  original listener and appends the wrapper to the registry. \<^verbatim>\<open>removeListener\<close> of a
  listener that is a key deletes the entry and removes the wrapper, not the listener.
  A wrapper that fires removes itself from the registry and leaves \<^verbatim>\<open>onceMap\<close> as it is.
\<close>

lemma subscribe_once: "subscribe ev listener True w = once_fn ev listener w"
  by (simp add: subscribe_def)

lemma once_fn_records_wrapper:
  "\<exists>w'. once_fn ev (JFn f) w = Inr w'
        \<and> onceMap w' = (onceMap w)(f \<mapsto> OnceListener (closures w) ev f)
        \<and> listeners ev w' = listeners ev w @ [OnceListener (closures w) ev f]"
  by (simp add: once_fn_def on_fn_def listeners_def Let_def)

lemma removeListener_deletes_entry:
  assumes "onceMap w f = Some t"
  shows "\<exists>w'. removeListener ev (JFn f) w = Inr w'
          \<and> onceMap w' = (onceMap w)(f := None)
          \<and> listeners ev w' = remove_last t (listeners ev w)"
  using assms by (simp add: removeListener_def super_removeListener_def listeners_def)

lemma firing_keeps_entry:
  assumes "onceMap w (OnceListener k ev (User n)) = None"
    and "invoke B (OnceListener k ev (User n)) as w = (c, w')"
  shows "onceMap w' = onceMap w
       \<and> listeners ev w' = remove_last (OnceListener k ev (User n)) (listeners ev w)"
  using assms
  by (auto simp: removeListener_def super_removeListener_def listeners_def Let_def
      split: if_splits prod.splits)

text \<open>
  C1. The specification wants a listener to be a key of \<^verbatim>\<open>onceMap\<close> exactly as long as its
  once-registration has neither fired nor been removed. Removing the listener before it
  fires deletes the entry and takes the wrapper out of the registry. Firing does not
  delete it: the wrapper calls \<^verbatim>\<open>self.removeListener(event, onceListener)\<close> with itself,
  which is no key of \<^verbatim>\<open>onceMap\<close>, so the wrapper leaves the registry and the entry of the
  original listener stays. The stale entry then swallows the next \<^verbatim>\<open>removeListener\<close> of the
  same listener: registered again with \<^verbatim>\<open>on\<close> and removed at once, it is still registered.
\<close>

theorem once_entry_survives_firing:
  "onceMap once_registered (User 5) = Some (OnceListener 0 ''foo'' (User 5))
   \<and> listeners ''foo'' once_registered = [OnceListener 0 ''foo'' (User 5)]
   \<and> onceMap (returned once_registered (removeListener ''foo'' (JFn (User 5)) once_registered))
        (User 5) = None
   \<and> listeners ''foo''
        (returned once_registered (removeListener ''foo'' (JFn (User 5)) once_registered)) = []
   \<and> fst (emitParallel sample ''foo'' [] once_registered) = AllFulfilled [JNum (Fin 1)]
   \<and> listeners ''foo'' once_fired = []
   \<and> 0 \<in> fired once_fired
   \<and> onceMap once_fired (User 5) = Some (OnceListener 0 ''foo'' (User 5))
   \<and> listeners ''foo'' registered_again = [User 5]
   \<and> listeners ''foo''
        (returned registered_again (removeListener ''foo'' (JFn (User 5)) registered_again))
      = [User 5]"
  by (simp add: registered_again_def once_fired_def once_registered_def run_defs)

end
